theory Spec2Isabelle
  imports Main "HOL-Library.Word"
begin

section \<open>The one-shot encoder example: \<^verbatim>\<open>examples/encode_oneshot.cc\<close>\<close>

text \<open>
  The file has two functions of interest: \<^verbatim>\<open>ReadPFM\<close>, which parses a Portable FloatMap
  into a vector of floats, and \<^verbatim>\<open>EncodeJxlOneshot\<close>, which feeds the pixels to the JPEG XL
  encoder and drains its output into a growing byte vector.

  Conventions of the embedding:
  \<^item> \<^verbatim>\<open>uint32_t\<close> is \<open>32 word\<close>, \<^verbatim>\<open>int\<close> is read with \<open>sint\<close>, \<^verbatim>\<open>size_t\<close> values
    (vector sizes, byte offsets) are \<open>nat\<close>: a vector never holds more than
    \<^verbatim>\<open>max_size()\<close> elements, which is below half the range of \<^verbatim>\<open>size_t\<close>, so neither
    \<^verbatim>\<open>size() * 2\<close> nor the offset sums wrap; running out of memory is not modelled;
  \<^item> a \<^verbatim>\<open>char\<close> of the file is a \<open>char\<close>, a \<^verbatim>\<open>uint8_t\<close> of the output is an \<open>8 word\<close>;
  \<^item> a \<^verbatim>\<open>float\<close> is its object representation, the four bytes \<^verbatim>\<open>memcpy\<close> moves;
  \<^item> a pointer into a vector is the index it points at.
\<close>

subsection \<open>The encoder as seen by the example\<close>

text \<open>
  Modelled from the spec: \<^verbatim>\<open>jxl/encode.h\<close> is not part of the sources. The spec names the
  three outcomes of producing output (done, need more space, error); the example tests for
  \<^verbatim>\<open>JXL_ENC_SUCCESS\<close> and \<^verbatim>\<open>JXL_ENC_NEED_MORE_OUTPUT\<close> and treats anything else as an error.
\<close>

datatype JxlEncoderStatus = JXL_ENC_SUCCESS | JXL_ENC_ERROR | JXL_ENC_NEED_MORE_OUTPUT

type_synonym byte = "8 word"

type_synonym float = "char list"

text \<open>
  Modelled from the spec: the encoder library is an opaque collaborator with an internal state
  \<open>'e\<close>. Each entry point returns a status and the next state. \<open>ProcessOutput\<close> is told how
  many bytes are available and answers with the bytes it produces; the caller-side effect on
  \<^verbatim>\<open>next_out\<close> and \<^verbatim>\<open>avail_out\<close> is \<open>JxlEncoderProcessOutput\<close> below.
\<close>

record 'e JxlEncoder =
  SetParallelRunner :: "'e \<Rightarrow> JxlEncoderStatus \<times> 'e"
  SetDimensions :: "'e \<Rightarrow> 32 word \<Rightarrow> 32 word \<Rightarrow> JxlEncoderStatus \<times> 'e"
  AddImageFrame :: "'e \<Rightarrow> float list \<Rightarrow> nat \<Rightarrow> JxlEncoderStatus \<times> 'e"
  ProcessOutput :: "'e \<Rightarrow> nat \<Rightarrow> JxlEncoderStatus \<times> byte list \<times> 'e"

subsection \<open>Draining the encoder (lines 188 to 201)\<close>

text \<open>
  The locals of the drain: the encoder, the vector \<^verbatim>\<open>*compressed\<close>, and the cursor
  \<^verbatim>\<open>next_out\<close> kept as the offset \<^verbatim>\<open>next_out - compressed->data()\<close>.
\<close>

record 'e drain_state =
  enc :: 'e
  compressed :: "byte list"
  next_out :: nat
  avail_out :: nat

text \<open>\<^verbatim>\<open>std::vector::resize\<close>: keeps the first \<open>n\<close> elements, fills up with value-initialised ones.\<close>

definition resize :: "nat \<Rightarrow> 'a \<Rightarrow> 'a list \<Rightarrow> 'a list" where
  "resize n z v = take n v @ replicate (n - length v) z"

text \<open>
  Modelled from the spec: the call \<^verbatim>\<open>JxlEncoderProcessOutput(enc, &next_out, &avail_out)\<close>.
  The encoder writes at most \<^verbatim>\<open>avail_out\<close> bytes at \<^verbatim>\<open>next_out\<close>, advances \<^verbatim>\<open>next_out\<close> past
  them and lowers \<^verbatim>\<open>avail_out\<close> by as much.
\<close>

definition JxlEncoderProcessOutput ::
  "('e \<Rightarrow> nat \<Rightarrow> JxlEncoderStatus \<times> byte list \<times> 'e) \<Rightarrow> 'e drain_state \<Rightarrow>
     JxlEncoderStatus \<times> 'e drain_state" where
  "JxlEncoderProcessOutput produce s =
     (case produce (enc s) (avail_out s) of
        (status, bytes, e') \<Rightarrow>
          let out = take (avail_out s) bytes; n = length out in
          (status,
           \<lparr>enc = e',
            compressed = take (next_out s) (compressed s) @ out
                           @ drop (next_out s + n) (compressed s),
            next_out = next_out s + n,
            avail_out = avail_out s - n\<rparr>))"

text \<open>Lines 195 to 198: the vector doubles, the cursor is recomputed from its offset.\<close>

definition grow :: "'e drain_state \<Rightarrow> 'e drain_state" where
  "grow s =
     (let offset = next_out s;
          v = resize (length (compressed s) * 2) 0 (compressed s)
      in s\<lparr>compressed := v, next_out := offset, avail_out := length v - offset\<rparr>)"

text \<open>
  Lines 192 to 200. The loop runs for as long as the encoder asks for more output, which
  nothing in the example bounds: not returning is \<open>None\<close>.
\<close>

partial_function (option) drain_loop ::
  "('e \<Rightarrow> nat \<Rightarrow> JxlEncoderStatus \<times> byte list \<times> 'e) \<Rightarrow> 'e drain_state \<Rightarrow>
     (JxlEncoderStatus \<times> 'e drain_state) option" where
  "drain_loop produce s =
     (case JxlEncoderProcessOutput produce s of
        (process_result, s1) \<Rightarrow>
          if process_result = JXL_ENC_NEED_MORE_OUTPUT
          then drain_loop produce (grow s1)
          else Some (process_result, s1))"

text \<open>Lines 188 to 190, with the starting size (64 in the example) as a parameter.\<close>

definition drain_init :: "nat \<Rightarrow> 'e \<Rightarrow> byte list \<Rightarrow> 'e drain_state" where
  "drain_init cap e c0 =
     (let v = resize cap 0 c0
      in \<lparr>enc = e, compressed = v, next_out = 0, avail_out = length v - 0\<rparr>)"

text \<open>
  Lines 188 to 201: the loop, then the vector is cut to the bytes written. The result is
  the last status, the vector and the encoder.
\<close>

definition drain ::
  "('e \<Rightarrow> nat \<Rightarrow> JxlEncoderStatus \<times> byte list \<times> 'e) \<Rightarrow> nat \<Rightarrow> 'e \<Rightarrow> byte list \<Rightarrow>
     (JxlEncoderStatus \<times> byte list \<times> 'e) option" where
  "drain produce cap e c0 =
     (case drain_loop produce (drain_init cap e c0) of
        None \<Rightarrow> None
      | Some (process_result, s) \<Rightarrow>
          Some (process_result, resize (next_out s) 0 (compressed s), enc s))"

subsection \<open>Observing the drain\<close>

text \<open>
  The states at the head of the loop (line 192) that a run started in \<open>s0\<close> passes through:
  \<open>s0\<close> itself, and the state after each call that asked for more output and the growth
  that follows it.
\<close>

inductive drain_reach ::
  "('e \<Rightarrow> nat \<Rightarrow> JxlEncoderStatus \<times> byte list \<times> 'e) \<Rightarrow> 'e drain_state \<Rightarrow>
     'e drain_state \<Rightarrow> bool"
  for produce :: "'e \<Rightarrow> nat \<Rightarrow> JxlEncoderStatus \<times> byte list \<times> 'e"
    and s0 :: "'e drain_state" where
  start: "drain_reach produce s0 s0"
| retry: "drain_reach produce s0 s \<Longrightarrow>
          JxlEncoderProcessOutput produce s = (JXL_ENC_NEED_MORE_OUTPUT, s1) \<Longrightarrow>
          drain_reach produce s0 (grow s1)"

text \<open>The cursor and the space behind it make up the vector.\<close>

definition cursor_ok :: "'e drain_state \<Rightarrow> bool" where
  "cursor_ok s \<longleftrightarrow> next_out s + avail_out s = length (compressed s)"

text \<open>
  An encoder that keeps a log of what it wrote: next to its own state, the list of the
  chunks written so far, one per call. The chunk of a call is what fits the space offered.
\<close>

definition logged ::
  "('e \<Rightarrow> nat \<Rightarrow> JxlEncoderStatus \<times> byte list \<times> 'e) \<Rightarrow>
     ('e \<times> byte list list) \<Rightarrow> nat \<Rightarrow> JxlEncoderStatus \<times> byte list \<times> ('e \<times> byte list list)" where
  "logged produce = (\<lambda>(e, log) avail.
     case produce e avail of
       (status, bytes, e') \<Rightarrow> (status, bytes, (e', log @ [take avail bytes])))"

text \<open>What holds of the drain of a logging encoder: the bytes before the cursor are the log.\<close>

definition drain_inv :: "('e \<times> byte list list) drain_state \<Rightarrow> bool" where
  "drain_inv s \<longleftrightarrow>
     next_out s + avail_out s = length (compressed s) \<and>
     take (next_out s) (compressed s) = concat (snd (enc s))"

text \<open>Forgetting the log.\<close>

definition strip :: "('e \<times> byte list list) drain_state \<Rightarrow> 'e drain_state" where
  "strip s = \<lparr>enc = fst (enc s), compressed = compressed s, next_out = next_out s,
              avail_out = avail_out s\<rparr>"

text \<open>
  A synthetic encoder for tests: its state is a script, one entry per call, of the status
  to report and the bytes to offer. Past the end of the script it reports an error.
\<close>

definition stub_produce ::
  "(JxlEncoderStatus \<times> byte list) list \<Rightarrow> nat \<Rightarrow>
     JxlEncoderStatus \<times> byte list \<times> (JxlEncoderStatus \<times> byte list) list" where
  "stub_produce script avail =
     (case script of
        [] \<Rightarrow> (JXL_ENC_ERROR, [], [])
      | (status, bytes) # rest \<Rightarrow> (status, bytes, rest))"

definition stub_encoder :: "(JxlEncoderStatus \<times> byte list) list JxlEncoder" where
  "stub_encoder =
     \<lparr>SetParallelRunner = (\<lambda>e. (JXL_ENC_SUCCESS, e)),
      SetDimensions = (\<lambda>e w h. (JXL_ENC_SUCCESS, e)),
      AddImageFrame = (\<lambda>e px size. (JXL_ENC_SUCCESS, e)),
      ProcessOutput = stub_produce\<rparr>"

subsection \<open>\<^verbatim>\<open>EncodeJxlOneshot\<close> (lines 157 to 211)\<close>

text \<open>
  The two handles the function creates. \<open>True\<close> means created and not yet destroyed.
  Creation is taken to succeed (the example does not test the handles).
\<close>

record handles =
  enc_live :: bool
  runner_live :: bool

definition JxlThreadParallelRunnerDestroy :: "handles \<Rightarrow> handles" where
  "JxlThreadParallelRunnerDestroy h = h\<lparr>runner_live := False\<rparr>"

definition JxlEncoderDestroy :: "handles \<Rightarrow> handles" where
  "JxlEncoderDestroy h = h\<lparr>enc_live := False\<rparr>"

text \<open>The four messages the function prints before \<^verbatim>\<open>return false\<close>.\<close>

datatype encode_failure =
  SetParallelRunner_failed | SetDimensions_failed | AddImageFrame_failed | ProcessOutput_failed

record 'e encode_result =
  returned :: "encode_failure + unit"
  compressed_out :: "byte list"
  handles_out :: handles
  enc_out :: 'e

definition EncodeJxlOneshot ::
  "'e JxlEncoder \<Rightarrow> 'e \<Rightarrow> float list \<Rightarrow> 32 word \<Rightarrow> 32 word \<Rightarrow> byte list \<Rightarrow>
     'e encode_result option" where
  "EncodeJxlOneshot api e0 pixels xsize ysize compressed0 =
     (let h = \<lparr>enc_live = True, runner_live = True\<rparr>;
          (r1, e1) = SetParallelRunner api e0
      in
      if JXL_ENC_SUCCESS \<noteq> r1
      then Some \<lparr>returned = Inl SetParallelRunner_failed, compressed_out = compressed0,
                 handles_out = JxlEncoderDestroy (JxlThreadParallelRunnerDestroy h),
                 enc_out = e1\<rparr>
      else
        (let (r2, e2) = SetDimensions api e1 xsize ysize in
         if JXL_ENC_SUCCESS \<noteq> r2
         then Some \<lparr>returned = Inl SetDimensions_failed, compressed_out = compressed0,
                    handles_out = JxlEncoderDestroy (JxlThreadParallelRunnerDestroy h),
                    enc_out = e2\<rparr>
         else
           (let (r3, e3) = AddImageFrame api e2 pixels (4 * length pixels) in
            if JXL_ENC_SUCCESS \<noteq> r3
            then Some \<lparr>returned = Inl AddImageFrame_failed, compressed_out = compressed0,
                       handles_out = JxlEncoderDestroy (JxlThreadParallelRunnerDestroy h),
                       enc_out = e3\<rparr>
            else
              (case drain (ProcessOutput api) 64 e3 compressed0 of
                 None \<Rightarrow> None
               | Some (process_result, c, e4) \<Rightarrow>
                   (if JXL_ENC_SUCCESS \<noteq> process_result
                    then Some \<lparr>returned = Inl ProcessOutput_failed, compressed_out = c,
                               handles_out =
                                 JxlEncoderDestroy (JxlThreadParallelRunnerDestroy h),
                               enc_out = e4\<rparr>
                    else Some \<lparr>returned = Inr (), compressed_out = c,
                               handles_out = JxlEncoderDestroy h, enc_out = e4\<rparr>)))))"

subsection \<open>\<^verbatim>\<open>ReadPFM\<close> (lines 37 to 147)\<close>

text \<open>
  What lines 39 to 74 find: no file to open (a message is printed), a failing
  \<^verbatim>\<open>fseek\<close>, \<^verbatim>\<open>ftell\<close>, \<^verbatim>\<open>fread\<close> or \<^verbatim>\<open>fclose\<close> (no message), or the bytes of the
  file.
\<close>

datatype pfm_file = NoFile | IoFailure | Contents string

text \<open>
  Every way \<^verbatim>\<open>ReadPFM\<close> ends other than \<^verbatim>\<open>return true\<close>. The first six are the
  \<^verbatim>\<open>return false\<close> statements; the two exceptions are those \<^verbatim>\<open>std::stoi\<close> throws, which
  nothing in the program catches; \<open>Out_of_bounds\<close> is a \<^verbatim>\<open>memcpy\<close> outside one of the two
  vectors, which is undefined behaviour.
\<close>

datatype error =
  Could_not_open
| Io_failed
| Missing_PF
| Bad_endianness_token
| Size_mismatch (actual: nat) (expected: nat)
| Different_endianness
| Stoi_invalid_argument
| Stoi_out_of_range
| Out_of_bounds

fun returns_false :: "error \<Rightarrow> bool" where
  "returns_false Stoi_invalid_argument = False"
| "returns_false Stoi_out_of_range = False"
| "returns_false Out_of_bounds = False"
| "returns_false _ = True"

text \<open>
  \<^verbatim>\<open>getline(stream, token, delim)\<close> on what is left of the stream: the token is everything
  before the first delimiter, which is consumed too. At the end of the stream the token is
  empty and nothing is left.
\<close>

definition getline :: "string \<Rightarrow> char \<Rightarrow> string \<times> string" where
  "getline stream delim =
     (takeWhile (\<lambda>c. c \<noteq> delim) stream, drop 1 (dropWhile (\<lambda>c. c \<noteq> delim) stream))"

text \<open>
  \<^verbatim>\<open>std::stoi\<close> as the C++ standard library defines it: \<^verbatim>\<open>strtol\<close> in base 10 (leading white
  space, an optional sign, then digits up to the first other character), an
  \<^verbatim>\<open>invalid_argument\<close> exception when there is no digit, an \<^verbatim>\<open>out_of_range\<close> exception when
  the value does not fit an \<^verbatim>\<open>int\<close>.
\<close>

definition isspace :: "char \<Rightarrow> bool" where
  "isspace c \<longleftrightarrow> c = CHR '' '' \<or> (9 :: nat) \<le> of_char c \<and> (of_char c :: nat) \<le> 13"

definition isdigit :: "char \<Rightarrow> bool" where
  "isdigit c \<longleftrightarrow> (48 :: nat) \<le> of_char c \<and> (of_char c :: nat) \<le> 57"

definition digits_value :: "string \<Rightarrow> int" where
  "digits_value ds = foldl (\<lambda>v c. v * 10 + (of_char c - 48)) 0 ds"

definition stoi :: "string \<Rightarrow> error + int" where
  "stoi str =
     (let s = dropWhile isspace str;
          negative = (s \<noteq> [] \<and> hd s = CHR ''-'');
          signed = (s \<noteq> [] \<and> (hd s = CHR ''-'' \<or> hd s = CHR ''+''));
          ds = takeWhile isdigit (if signed then tl s else s);
          v = (if negative then - digits_value ds else digits_value ds)
      in if ds = [] then Inl Stoi_invalid_argument
         else if v < - (2 ^ 31) \<or> 2 ^ 31 - 1 < v then Inl Stoi_out_of_range
         else Inr v)"

text \<open>A number written in decimal digits and nothing else.\<close>

definition decimal :: "string \<Rightarrow> bool" where
  "decimal s \<longleftrightarrow> s \<noteq> [] \<and> list_all isdigit s"

text \<open>Lines 80 to 100 without the conversions: the four tokens of the header.\<close>

record header =
  pf_token :: string
  xsize_token :: string
  ysize_token :: string
  endianness_token :: string

definition header_tokens :: "string \<Rightarrow> header" where
  "header_tokens data =
     (let (pf, s1) = getline data CHR ''\<newline>'';
          (xs, s2) = getline s1 CHR '' '';
          (ys, s3) = getline s2 CHR ''\<newline>'';
          (en, s4) = getline s3 CHR ''\<newline>''
      in \<lparr>pf_token = pf, xsize_token = xs, ysize_token = ys, endianness_token = en\<rparr>)"

text \<open>Lines 114 and 115.\<close>

definition header_offset :: "header \<Rightarrow> nat" where
  "header_offset h =
     length (pf_token h) + 1 + length (xsize_token h) + 1 +
     length (ysize_token h) + 1 + length (endianness_token h) + 1"

text \<open>The three outputs of \<^verbatim>\<open>ReadPFM\<close>: \<^verbatim>\<open>*pixels\<close>, \<^verbatim>\<open>*xsize\<close>, \<^verbatim>\<open>*ysize\<close>.\<close>

record image =
  pixels :: "float list"
  xsize :: "32 word"
  ysize :: "32 word"

text \<open>
  Lines 139 to 141: one \<^verbatim>\<open>memcpy\<close> of \<^verbatim>\<open>sizeof(float)\<close> bytes from \<^verbatim>\<open>data\<close> at \<^verbatim>\<open>offset\<close>
  into element \<open>i\<close> of the pixels, then the offset moves on. The state of the loops is the
  pixel vector and the offset.
\<close>

definition memcpy_float :: "string \<Rightarrow> nat \<Rightarrow> float list \<times> nat \<Rightarrow> error + float list \<times> nat" where
  "memcpy_float data i = (\<lambda>(px, offset).
     if i < length px \<and> offset + 4 \<le> length data
     then Inr (px[i := take 4 (drop offset data)], offset + 4)
     else Inl Out_of_bounds)"

text \<open>A \<^verbatim>\<open>for\<close> loop over the given values of its counter, stopping at the first error.\<close>

fun for_each :: "('i \<Rightarrow> 's \<Rightarrow> error + 's) \<Rightarrow> 'i list \<Rightarrow> 's \<Rightarrow> error + 's" where
  "for_each body [] s = Inr s"
| "for_each body (i # rest) s =
     (case body i s of Inl e \<Rightarrow> Inl e | Inr s' \<Rightarrow> for_each body rest s')"

text \<open>
  Lines 136 to 144. \<^verbatim>\<open>y\<close> starts at \<^verbatim>\<open>(int)(*ysize - 1)\<close> and counts down to 0, \<^verbatim>\<open>x\<close> counts
  up to \<^verbatim>\<open>(int)*xsize\<close>; the index \<^verbatim>\<open>(y * *xsize + x) * 3 + c\<close> is computed in
  \<^verbatim>\<open>uint32_t\<close>.
\<close>

definition pixel_index :: "32 word \<Rightarrow> nat \<Rightarrow> nat \<Rightarrow> nat \<Rightarrow> nat" where
  "pixel_index xs y x c = unat ((of_nat y * xs + of_nat x) * 3 + of_nat c :: 32 word)"

definition copy_pixels ::
  "string \<Rightarrow> 32 word \<Rightarrow> 32 word \<Rightarrow> float list \<times> nat \<Rightarrow> error + float list \<times> nat" where
  "copy_pixels data xs ys =
     for_each (\<lambda>y.
       for_each (\<lambda>x.
         for_each (\<lambda>c. memcpy_float data (pixel_index xs y x c)) [0..<3])
         [0..<nat (sint xs)])
       (rev [0..<nat (sint (ys - 1) + 1)])"

definition zero_float :: float where
  "zero_float = replicate 4 (CHR 0x00)"

text \<open>
  \<^verbatim>\<open>ReadPFM\<close>. \<open>little_endian\<close> is \<^verbatim>\<open>little_endian[0]\<close>, the byte order of the host; \<open>img\<close>
  holds the three outputs as the caller passed them.
\<close>

definition ReadPFM :: "bool \<Rightarrow> pfm_file \<Rightarrow> image \<Rightarrow> (error + unit) \<times> image" where
  "ReadPFM little_endian f img =
     (case f of
        NoFile \<Rightarrow> (Inl Could_not_open, img)
      | IoFailure \<Rightarrow> (Inl Io_failed, img)
      | Contents data \<Rightarrow>
          (let h = header_tokens data in
           if pf_token h \<noteq> ''PF'' then (Inl Missing_PF, img)
           else
             (case stoi (xsize_token h) of
                Inl e \<Rightarrow> (Inl e, img)
              | Inr xi \<Rightarrow>
                  (let img1 = img\<lparr>xsize := word_of_int xi\<rparr> in
                   case stoi (ysize_token h) of
                     Inl e \<Rightarrow> (Inl e, img1)
                   | Inr yi \<Rightarrow>
                       (let img2 = img1\<lparr>ysize := word_of_int yi\<rparr> in
                        case (if endianness_token h = ''1.0'' then Some False
                              else if endianness_token h = ''-1.0'' then Some True
                              else None) of
                          None \<Rightarrow> (Inl Bad_endianness_token, img2)
                        | Some input_little_endian \<Rightarrow>
                          (let offset = header_offset h;
                               expected = unat (ysize img2 * xsize img2 * 3 * 4) + offset
                           in
                           if length data \<noteq> expected
                           then (Inl (Size_mismatch (length data) expected), img2)
                           else if little_endian \<noteq> input_little_endian
                           then (Inl Different_endianness, img2)
                           else
                             (let px = resize (unat (ysize img2 * xsize img2 * 3)) zero_float
                                         (pixels img2)
                              in
                              case copy_pixels data (xsize img2) (ysize img2) (px, offset) of
                                Inl e \<Rightarrow> (Inl e, img2\<lparr>pixels := px\<rparr>)
                              | Inr (px', offset') \<Rightarrow> (Inr (), img2\<lparr>pixels := px'\<rparr>))))))))"

subsection \<open>Reading the payload\<close>

text \<open>
  The \<open>n\<close> floats that lie in \<open>data\<close> from byte \<open>off\<close> on, four bytes each, and float
  number \<open>k\<close> of the payload, the bytes behind the header.
\<close>

definition floats :: "string \<Rightarrow> nat \<Rightarrow> nat \<Rightarrow> float list" where
  "floats data off n = map (\<lambda>k. take 4 (drop (off + 4 * k) data)) [0..<n]"

definition payload_float :: "string \<Rightarrow> nat \<Rightarrow> float" where
  "payload_float data k = take 4 (drop (header_offset (header_tokens data) + 4 * k) data)"

text \<open>A list of \<open>h\<close> rows of \<open>n\<close> elements each, with the rows in the opposite order.\<close>

definition rev_rows :: "nat \<Rightarrow> nat \<Rightarrow> 'a list \<Rightarrow> 'a list" where
  "rev_rows n h fl = concat (map (\<lambda>r. take n (drop (n * r) fl)) (rev [0..<h]))"

text \<open>
  A step of the copy loops that, whenever it succeeds, moves the offset on by \<open>k\<close>, keeps
  the length of the pixel vector and, if it read anything, stayed within the \<open>L\<close> bytes
  of the file.
\<close>

definition advances ::
  "nat \<Rightarrow> nat \<Rightarrow> (float list \<times> nat \<Rightarrow> error + float list \<times> nat) \<Rightarrow> bool" where
  "advances L k f \<longleftrightarrow>
     (\<forall>s s'. f s = Inr s' \<longrightarrow>
        snd s' = snd s + k \<and> length (fst s') = length (fst s) \<and> (0 < k \<longrightarrow> snd s' \<le> L))"

subsection \<open>Writing a Portable FloatMap\<close>

text \<open>
  Modelled from the spec: the example has no writer for its input format. This one follows
  the container format of the spec: the line \<^verbatim>\<open>PF\<close>, the line of the width and the height
  in decimal with a space between, the line of the byte order (\<^verbatim>\<open>-1.0\<close> for little-endian),
  then the samples row by row, last row first, as the four bytes of each float.
\<close>

definition digit_char :: "nat \<Rightarrow> char" where
  "digit_char d = char_of (48 + d)"

fun dec :: "nat \<Rightarrow> string" where
  "dec n = (if n < 10 then [digit_char n] else dec (n div 10) @ [digit_char (n mod 10)])"

declare dec.simps [simp del]

definition pfm_header :: "string \<Rightarrow> string \<Rightarrow> string \<Rightarrow> string" where
  "pfm_header width height endianness =
     ''PF'' @ [CHR ''\<newline>''] @ width @ [CHR '' ''] @ height @ [CHR ''\<newline>''] @
     endianness @ [CHR ''\<newline>'']"

definition header_text :: "bool \<Rightarrow> image \<Rightarrow> string" where
  "header_text little_endian img =
     ''PF'' @ [CHR ''\<newline>''] @
     dec (unat (xsize img)) @ [CHR '' ''] @ dec (unat (ysize img)) @ [CHR ''\<newline>''] @
     (if little_endian then ''-1.0'' else ''1.0'') @ [CHR ''\<newline>'']"

definition WritePFM :: "bool \<Rightarrow> image \<Rightarrow> string" where
  "WritePFM little_endian img =
     header_text little_endian img @
     concat (rev_rows (3 * unat (xsize img)) (unat (ysize img)) (pixels img))"

subsection \<open>Test files\<close>

definition empty_image :: image where
  "empty_image = \<lparr>pixels = [], xsize = 0, ysize = 0\<rparr>"

text \<open>One pixel wide, two high, little-endian; and the image read from it.\<close>

definition pfm_1x2 :: string where
  "pfm_1x2 = ''PF\<newline>1 2\<newline>-1.0\<newline>aaaabbbbccccddddeeeeffff''"

definition image_1x2 :: image where
  "image_1x2 = \<lparr>pixels = [''dddd'', ''eeee'', ''ffff'', ''aaaa'', ''bbbb'', ''cccc''],
                 xsize = 1, ysize = 2\<rparr>"

text \<open>Two pixels wide, one high, with 23 bytes of payload where 24 are due.\<close>

definition pfm_short :: string where
  "pfm_short = ''PF\<newline>2 1\<newline>-1.0\<newline>'' @ replicate 23 (CHR 0x00)"

section \<open>Properties of the drain\<close>

subsection \<open>Vectors\<close>

lemma length_resize [simp]: "length (resize n z v) = n"
  by (simp add: resize_def)

lemma take_resize: "k \<le> length v \<Longrightarrow> k \<le> n \<Longrightarrow> take k (resize n z v) = take k v"
  by (simp add: resize_def min_def)

lemma resize_exact: "n \<le> length v \<Longrightarrow> resize n z v = take n v"
  by (simp add: resize_def)

subsection \<open>One call, one growth\<close>

lemma cursor_ok_init: "cursor_ok (drain_init cap e c0)"
  by (simp add: cursor_ok_def drain_init_def)

lemma process_capacity:
  assumes "cursor_ok s" "JxlEncoderProcessOutput produce s = (r, s1)"
  shows "length (compressed s1) = length (compressed s)" "cursor_ok s1"
    "take (next_out s) (compressed s1) = take (next_out s) (compressed s)"
  using assms
  by (auto simp add: JxlEncoderProcessOutput_def cursor_ok_def Let_def min_def
      split: prod.splits)

lemma grow_capacity:
  assumes "cursor_ok s"
  shows "length (compressed (grow s)) = 2 * length (compressed s)" "cursor_ok (grow s)"
    "next_out (grow s) = next_out s"
    "take (next_out s) (compressed (grow s)) = take (next_out s) (compressed s)"
  using assms by (auto simp add: grow_def cursor_ok_def Let_def take_resize)

lemma enc_grow [simp]: "enc (grow s) = enc s"
  by (simp add: grow_def Let_def)

lemma reach_cursor_ok:
  "drain_reach produce s0 s \<Longrightarrow> cursor_ok s0 \<Longrightarrow> cursor_ok s"
  by (induction rule: drain_reach.induct) (auto intro: process_capacity grow_capacity)

lemma reach_monotone:
  "drain_reach produce s s' \<Longrightarrow> cursor_ok s \<Longrightarrow>
     length (compressed s) \<le> length (compressed s')"
proof (induction rule: drain_reach.induct)
  case start
  then show ?case by simp
next
  case (retry t t1)
  have ok: "cursor_ok t" using retry.hyps(1) retry.prems by (rule reach_cursor_ok)
  have "length (compressed (grow t1)) = 2 * length (compressed t)"
    using process_capacity(1,2) [OF ok retry.hyps(2)] grow_capacity(1) by metis
  then show ?case using retry.IH retry.prems by simp
qed

lemma drain_loop_retry:
  "JxlEncoderProcessOutput produce s = (JXL_ENC_NEED_MORE_OUTPUT, s1) \<Longrightarrow>
     drain_loop produce s = drain_loop produce (grow s1)"
  by (subst drain_loop.simps) simp

lemma drain_loop_stop:
  "JxlEncoderProcessOutput produce s = (r, s1) \<Longrightarrow> r \<noteq> JXL_ENC_NEED_MORE_OUTPUT \<Longrightarrow>
     drain_loop produce s = Some (r, s1)"
  by (subst drain_loop.simps) simp

subsection \<open>The written prefix is the log\<close>

lemma drain_inv_init: "drain_inv (drain_init cap (e, []) c0)"
  by (simp add: drain_inv_def drain_init_def)

lemma drain_inv_process:
  assumes "drain_inv s" "JxlEncoderProcessOutput (logged produce) s = (r, s1)"
  shows "drain_inv s1"
proof -
  obtain e log where el: "enc s = (e, log)" by (cases "enc s")
  obtain st bytes e' where p: "produce e (avail_out s) = (st, bytes, e')"
    by (cases "produce e (avail_out s)")
  let ?out = "take (avail_out s) bytes"
  have s1: "s1 = \<lparr>enc = (e', log @ [?out]),
            compressed = take (next_out s) (compressed s) @ ?out
                           @ drop (next_out s + length ?out) (compressed s),
            next_out = next_out s + length ?out,
            avail_out = avail_out s - length ?out\<rparr>"
    using assms(2) by (simp add: JxlEncoderProcessOutput_def logged_def el p Let_def)
  have len: "next_out s + avail_out s = length (compressed s)"
    and pre: "take (next_out s) (compressed s) = concat log"
    using assms(1) by (simp_all add: drain_inv_def el)
  have n: "length (take (next_out s) (compressed s)) = next_out s"
    using len by simp
  show ?thesis
    unfolding drain_inv_def s1 using len pre n by (simp add: min_def)
qed

lemma drain_inv_grow: "drain_inv s \<Longrightarrow> drain_inv (grow s)"
  by (auto simp add: drain_inv_def grow_def Let_def take_resize)

lemma drain_loop_inv_aux:
  assumes "drain_loop p s = Some rs"
  shows "p = logged produce \<longrightarrow> drain_inv s \<longrightarrow>
           drain_inv (snd rs) \<and> fst rs \<noteq> JXL_ENC_NEED_MORE_OUTPUT"
proof (rule drain_loop.raw_induct
    [where P = "\<lambda>p s rs. p = logged produce \<longrightarrow> drain_inv s \<longrightarrow>
           drain_inv (snd rs) \<and> fst rs \<noteq> JXL_ENC_NEED_MORE_OUTPUT", OF _ assms])
  fix loop :: "(('a \<times> byte list list) \<Rightarrow> nat \<Rightarrow>
                  JxlEncoderStatus \<times> byte list \<times> ('a \<times> byte list list)) \<Rightarrow>
               ('a \<times> byte list list) drain_state \<Rightarrow>
               (JxlEncoderStatus \<times> ('a \<times> byte list list) drain_state) option"
  fix p s rs
  assume IH: "\<And>p s rs. loop p s = Some rs \<Longrightarrow> p = logged produce \<longrightarrow> drain_inv s \<longrightarrow>
           drain_inv (snd rs) \<and> fst rs \<noteq> JXL_ENC_NEED_MORE_OUTPUT"
    and eq: "(case JxlEncoderProcessOutput p s of
        (process_result, s1) \<Rightarrow>
          if process_result = JXL_ENC_NEED_MORE_OUTPUT
          then loop p (grow s1)
          else Some (process_result, s1)) = Some rs"
  show "p = logged produce \<longrightarrow> drain_inv s \<longrightarrow>
           drain_inv (snd rs) \<and> fst rs \<noteq> JXL_ENC_NEED_MORE_OUTPUT"
  proof (intro impI)
    assume pl: "p = logged produce" and inv: "drain_inv s"
    obtain r s1 where p: "JxlEncoderProcessOutput (logged produce) s = (r, s1)"
      by (cases "JxlEncoderProcessOutput (logged produce) s")
    have i1: "drain_inv s1" using inv p by (rule drain_inv_process)
    show "drain_inv (snd rs) \<and> fst rs \<noteq> JXL_ENC_NEED_MORE_OUTPUT"
    proof (cases "r = JXL_ENC_NEED_MORE_OUTPUT")
      case True
      then have "loop p (grow s1) = Some rs" using eq p pl by simp
      then show ?thesis using IH pl drain_inv_grow [OF i1] by blast
    next
      case False
      then have "rs = (r, s1)" using eq p pl by simp
      then show ?thesis using False i1 by simp
    qed
  qed
qed

lemma drain_loop_inv:
  assumes "drain_loop (logged produce) s = Some (r, s')" "drain_inv s"
  shows "drain_inv s' \<and> r \<noteq> JXL_ENC_NEED_MORE_OUTPUT"
  using drain_loop_inv_aux [OF assms(1), of produce] assms(2) by simp

lemma drain_logged:
  assumes "drain (logged produce) cap (e, []) c0 = Some (r, buf, e', log)"
  shows "buf = concat log \<and> r \<noteq> JXL_ENC_NEED_MORE_OUTPUT"
proof -
  obtain s where l: "drain_loop (logged produce) (drain_init cap (e, []) c0) = Some (r, s)"
    and buf: "buf = resize (next_out s) 0 (compressed s)" and e: "enc s = (e', log)"
    using assms by (auto simp add: drain_def split: option.splits)
  have "drain_inv s" and r: "r \<noteq> JXL_ENC_NEED_MORE_OUTPUT"
    using drain_loop_inv [OF l drain_inv_init] by simp_all
  then have "next_out s \<le> length (compressed s)"
    "take (next_out s) (compressed s) = concat log"
    by (simp_all add: drain_inv_def e)
  then show ?thesis using buf r by (simp add: resize_exact)
qed

subsection \<open>The log changes nothing\<close>

lemma strip_process:
  "JxlEncoderProcessOutput (logged produce) s = (r, s1) \<Longrightarrow>
     JxlEncoderProcessOutput produce (strip s) = (r, strip s1)"
  by (auto simp add: JxlEncoderProcessOutput_def logged_def strip_def Let_def
      split: prod.splits)

lemma strip_grow: "strip (grow s) = grow (strip s)"
  by (simp add: strip_def grow_def Let_def)

lemma strip_loop_aux:
  assumes "drain_loop p s = Some rs"
  shows "p = logged produce \<longrightarrow> drain_loop produce (strip s) = Some (fst rs, strip (snd rs))"
proof (rule drain_loop.raw_induct
    [where P = "\<lambda>p s rs. p = logged produce \<longrightarrow>
        drain_loop produce (strip s) = Some (fst rs, strip (snd rs))", OF _ assms])
  fix loop :: "(('a \<times> byte list list) \<Rightarrow> nat \<Rightarrow>
                  JxlEncoderStatus \<times> byte list \<times> ('a \<times> byte list list)) \<Rightarrow>
               ('a \<times> byte list list) drain_state \<Rightarrow>
               (JxlEncoderStatus \<times> ('a \<times> byte list list) drain_state) option"
  fix p s rs
  assume IH: "\<And>p s rs. loop p s = Some rs \<Longrightarrow> p = logged produce \<longrightarrow>
        drain_loop produce (strip s) = Some (fst rs, strip (snd rs))"
    and eq: "(case JxlEncoderProcessOutput p s of
        (process_result, s1) \<Rightarrow>
          if process_result = JXL_ENC_NEED_MORE_OUTPUT
          then loop p (grow s1)
          else Some (process_result, s1)) = Some rs"
  show "p = logged produce \<longrightarrow> drain_loop produce (strip s) = Some (fst rs, strip (snd rs))"
  proof
    assume pl: "p = logged produce"
    obtain r s1 where p: "JxlEncoderProcessOutput (logged produce) s = (r, s1)"
      by (cases "JxlEncoderProcessOutput (logged produce) s")
    note q = strip_process [OF p]
    show "drain_loop produce (strip s) = Some (fst rs, strip (snd rs))"
    proof (cases "r = JXL_ENC_NEED_MORE_OUTPUT")
      case True
      then have "loop p (grow s1) = Some rs" using eq p pl by simp
      from IH [OF this] pl
      have "drain_loop produce (grow (strip s1)) = Some (fst rs, strip (snd rs))"
        by (simp add: strip_grow)
      then show ?thesis using q True by (simp add: drain_loop_retry)
    next
      case False
      then have "rs = (r, s1)" using eq p pl by simp
      then show ?thesis using q False by (simp add: drain_loop_stop)
    qed
  qed
qed

lemma strip_drain:
  assumes "drain (logged produce) cap (e, []) c0 = Some (r, buf, e', log)"
  shows "drain produce cap e c0 = Some (r, buf, e')"
proof -
  obtain s where l: "drain_loop (logged produce) (drain_init cap (e, []) c0) = Some (r, s)"
    and buf: "buf = resize (next_out s) 0 (compressed s)" and e: "enc s = (e', log)"
    using assms by (auto simp add: drain_def split: option.splits)
  have i: "strip (drain_init cap (e, []) c0) = drain_init cap e c0"
    by (simp add: strip_def drain_init_def)
  have "drain_loop produce (drain_init cap e c0) = Some (r, strip s)"
    using strip_loop_aux [OF l, of produce] i by simp
  then show ?thesis using buf e by (simp add: drain_def strip_def)
qed

lemma reach_loop:
  "drain_reach produce s0 s \<Longrightarrow> drain_loop produce s0 = drain_loop produce s"
  by (induction rule: drain_reach.induct) (simp_all add: drain_loop_retry)

lemma reach_strip:
  "drain_reach (logged produce) s0 s \<Longrightarrow> drain_reach produce (strip s0) (strip s)"
proof (induction rule: drain_reach.induct)
  case start
  show ?case by (rule drain_reach.start)
next
  case (retry s s1)
  from drain_reach.retry [OF retry.IH strip_process [OF retry.hyps(2)]]
  show ?case by (simp add: strip_grow)
qed

lemma reach_inv:
  "drain_reach (logged produce) s0 s \<Longrightarrow> drain_inv s0 \<Longrightarrow> drain_inv s"
  by (induction rule: drain_reach.induct) (auto intro: drain_inv_process drain_inv_grow)

subsection \<open>The stub of four calls\<close>

lemma stub_call:
  assumes "enc s = ((status, bytes) # rest, log)"
  shows "\<exists>s1 out. JxlEncoderProcessOutput (logged stub_produce) s = (status, s1) \<and>
           enc s1 = (rest, log @ [out])"
  using assms by (simp add: JxlEncoderProcessOutput_def logged_def stub_produce_def Let_def)

lemma stub_four_calls:
  fixes b1 b2 b3 b4 :: "byte list"
  defines "N \<equiv> JXL_ENC_NEED_MORE_OUTPUT"
  assumes "enc s = ([(N, b1), (N, b2), (N, b3), (JXL_ENC_SUCCESS, b4)], [])"
  shows "\<exists>s' log. drain_loop (logged stub_produce) s = Some (JXL_ENC_SUCCESS, s') \<and>
           enc s' = ([], log) \<and> length log = 4"
proof -
  obtain s1 o1 where 1: "JxlEncoderProcessOutput (logged stub_produce) s = (N, s1)"
      "enc s1 = ([(N, b2), (N, b3), (JXL_ENC_SUCCESS, b4)], [] @ [o1])"
    using stub_call [OF assms(2)] by blast
  then have "enc (grow s1) = ([(N, b2), (N, b3), (JXL_ENC_SUCCESS, b4)], [o1])" by simp
  from stub_call [OF this]
  obtain s2 o2 where 2: "JxlEncoderProcessOutput (logged stub_produce) (grow s1) = (N, s2)"
      "enc s2 = ([(N, b3), (JXL_ENC_SUCCESS, b4)], [o1] @ [o2])"
    by blast
  then have "enc (grow s2) = ([(N, b3), (JXL_ENC_SUCCESS, b4)], [o1, o2])" by simp
  from stub_call [OF this]
  obtain s3 o3 where 3: "JxlEncoderProcessOutput (logged stub_produce) (grow s2) = (N, s3)"
      "enc s3 = ([(JXL_ENC_SUCCESS, b4)], [o1, o2] @ [o3])"
    by blast
  then have "enc (grow s3) = ([(JXL_ENC_SUCCESS, b4)], [o1, o2, o3])" by simp
  from stub_call [OF this]
  obtain s4 o4 where 4:
      "JxlEncoderProcessOutput (logged stub_produce) (grow s3) = (JXL_ENC_SUCCESS, s4)"
      "enc s4 = ([], [o1, o2, o3] @ [o4])"
    by blast
  have "drain_loop (logged stub_produce) s = drain_loop (logged stub_produce) (grow s3)"
    using 1(1) 2(1) 3(1) by (simp add: drain_loop_retry N_def)
  also have "\<dots> = Some (JXL_ENC_SUCCESS, s4)"
    using 4(1) by (simp add: drain_loop_stop)
  finally show ?thesis using 4(2) by simp
qed

subsection \<open>The claims about the drain\<close>

text \<open>
  C1. The drain is run, from any positive starting size \<open>cap\<close> in place of the 64 of
  line 188, against the stub that asks for more output three times and then reports
  success, offering the bytes \<open>b1\<close> to \<open>b4\<close>. The drain returns, the stub has been called
  exactly four times, and the vector handed back is the concatenation, in order, of the
  four chunks the stub wrote: nothing missing, nothing twice, nothing cut.
\<close>

theorem drain_stub_concat:
  fixes b1 b2 b3 b4 :: "byte list"
  assumes "0 < cap"
  shows "\<exists>log. drain (logged stub_produce) cap
             ([(JXL_ENC_NEED_MORE_OUTPUT, b1), (JXL_ENC_NEED_MORE_OUTPUT, b2),
               (JXL_ENC_NEED_MORE_OUTPUT, b3), (JXL_ENC_SUCCESS, b4)], []) c0
           = Some (JXL_ENC_SUCCESS, concat log, [], log) \<and> length log = 4"
proof -
  let ?script = "[(JXL_ENC_NEED_MORE_OUTPUT, b1), (JXL_ENC_NEED_MORE_OUTPUT, b2),
               (JXL_ENC_NEED_MORE_OUTPUT, b3), (JXL_ENC_SUCCESS, b4)]"
  have "enc (drain_init cap (?script, []) c0) = (?script, [])"
    by (simp add: drain_init_def)
  from stub_four_calls [OF this]
  obtain s' log where l: "drain_loop (logged stub_produce) (drain_init cap (?script, []) c0)
      = Some (JXL_ENC_SUCCESS, s')" and e: "enc s' = ([], log)" and n: "length log = 4"
    by blast
  have d: "drain (logged stub_produce) cap (?script, []) c0
      = Some (JXL_ENC_SUCCESS, resize (next_out s') 0 (compressed s'), [], log)"
    by (simp add: drain_def l e)
  from drain_logged [OF d] have "resize (next_out s') 0 (compressed s') = concat log" by simp
  with d n show ?thesis by auto
qed

theorem drain_stub_concat_witness:
  "(0 :: nat) < 64 \<and>
   (\<exists>log. drain (logged stub_produce) 64
             ([(JXL_ENC_NEED_MORE_OUTPUT, [1, 2]), (JXL_ENC_NEED_MORE_OUTPUT, []),
               (JXL_ENC_NEED_MORE_OUTPUT, [3]), (JXL_ENC_SUCCESS, [4, 5, 6])], []) []
           = Some (JXL_ENC_SUCCESS, concat log, [], log) \<and> length log = 4)"
  using drain_stub_concat [of 64 "[1, 2]" "[]" "[3]" "[4, 5, 6]" "[]"] by simp

text \<open>
  C2. Take any state \<open>s\<close> at the head of the loop of a drain started with any size \<open>cap\<close>,
  for any encoder, and the call of the encoder made there. The loop started at line 192
  is the loop continued from \<open>s\<close>; the vector is at least as long as at the start; the
  call leaves its length alone and leaves the bytes before the old cursor alone. When the
  encoder asks for more output, the loop goes on from the grown state and from no other:
  the length is doubled, the cursor keeps its offset, the space offered to the next call
  is what lies behind it in the doubled vector, and the bytes before the cursor are the
  same after the resize as before. On any other status the loop returns that status and
  the state of the call. No later pass sees a shorter vector.
\<close>

theorem drain_growth:
  assumes "drain_reach produce (drain_init cap e c0) s"
    and "JxlEncoderProcessOutput produce s = (r, s1)"
  shows "drain_loop produce (drain_init cap e c0) = drain_loop produce s \<and>
         cap \<le> length (compressed s) \<and>
         length (compressed s1) = length (compressed s) \<and>
         take (next_out s) (compressed s1) = take (next_out s) (compressed s) \<and>
         (r = JXL_ENC_NEED_MORE_OUTPUT \<longrightarrow>
            drain_loop produce s = drain_loop produce (grow s1) \<and>
            drain_reach produce (drain_init cap e c0) (grow s1) \<and>
            length (compressed (grow s1)) = 2 * length (compressed s1) \<and>
            next_out (grow s1) = next_out s1 \<and>
            avail_out (grow s1) = 2 * length (compressed s1) - next_out s1 \<and>
            take (next_out s1) (compressed (grow s1)) = take (next_out s1) (compressed s1)) \<and>
         (r \<noteq> JXL_ENC_NEED_MORE_OUTPUT \<longrightarrow> drain_loop produce s = Some (r, s1)) \<and>
         (\<forall>s'. drain_reach produce s s' \<longrightarrow> length (compressed s) \<le> length (compressed s'))"
proof -
  have 0: "drain_loop produce (drain_init cap e c0) = drain_loop produce s"
    using assms(1) by (rule reach_loop)
  have ok: "cursor_ok s" using assms(1) cursor_ok_init by (rule reach_cursor_ok)
  have "length (compressed (drain_init cap e c0)) = cap" by (simp add: drain_init_def)
  then have 1: "cap \<le> length (compressed s)"
    using reach_monotone [OF assms(1) cursor_ok_init] by simp
  have 2: "length (compressed s1) = length (compressed s)"
    using process_capacity(1) [OF ok assms(2)] .
  have 3: "take (next_out s) (compressed s1) = take (next_out s) (compressed s)"
    using process_capacity(3) [OF ok assms(2)] .
  have ok1: "cursor_ok s1" using process_capacity(2) [OF ok assms(2)] .
  have 4: "length (compressed (grow s1)) = 2 * length (compressed s1) \<and>
           next_out (grow s1) = next_out s1 \<and>
           avail_out (grow s1) = 2 * length (compressed s1) - next_out s1 \<and>
           take (next_out s1) (compressed (grow s1)) = take (next_out s1) (compressed s1)"
    using grow_capacity [OF ok1] by (simp add: grow_def Let_def)
  have 5: "r = JXL_ENC_NEED_MORE_OUTPUT \<longrightarrow>
      drain_loop produce s = drain_loop produce (grow s1) \<and>
      drain_reach produce (drain_init cap e c0) (grow s1)"
    using assms drain_loop_retry drain_reach.retry by blast
  have 6: "r \<noteq> JXL_ENC_NEED_MORE_OUTPUT \<longrightarrow> drain_loop produce s = Some (r, s1)"
    using assms(2) drain_loop_stop by blast
  have 7: "\<forall>s'. drain_reach produce s s' \<longrightarrow> length (compressed s) \<le> length (compressed s')"
    using reach_monotone ok by blast
  show ?thesis using 0 1 2 3 4 5 6 7 by blast
qed

theorem drain_growth_witness:
  "drain_reach stub_produce
     (drain_init 2 [(JXL_ENC_NEED_MORE_OUTPUT, [1, 2, 3]), (JXL_ENC_SUCCESS, [4])] [])
     (drain_init 2 [(JXL_ENC_NEED_MORE_OUTPUT, [1, 2, 3]), (JXL_ENC_SUCCESS, [4])] []) \<and>
   JxlEncoderProcessOutput stub_produce
     (drain_init 2 [(JXL_ENC_NEED_MORE_OUTPUT, [1, 2, 3]), (JXL_ENC_SUCCESS, [4])] []) =
     (JXL_ENC_NEED_MORE_OUTPUT,
      \<lparr>enc = [(JXL_ENC_SUCCESS, [4])], compressed = [1, 2], next_out = 2, avail_out = 0\<rparr>) \<and>
   drain_reach stub_produce
     (drain_init 2 [(JXL_ENC_NEED_MORE_OUTPUT, [1, 2, 3]), (JXL_ENC_SUCCESS, [4])] [])
     (grow \<lparr>enc = [(JXL_ENC_SUCCESS, [4])], compressed = [1, 2], next_out = 2,
             avail_out = 0\<rparr>) \<and>
   JxlEncoderProcessOutput stub_produce
     (grow \<lparr>enc = [(JXL_ENC_SUCCESS, [4])], compressed = [1, 2], next_out = 2,
             avail_out = 0\<rparr>) =
     (JXL_ENC_SUCCESS, \<lparr>enc = [], compressed = [1, 2, 4, 0], next_out = 3, avail_out = 1\<rparr>) \<and>
   length (compressed (grow \<lparr>enc = [(JXL_ENC_SUCCESS, [4 :: byte])], compressed = [1, 2],
             next_out = 2, avail_out = 0\<rparr>)) = 4 \<and>
   avail_out (grow \<lparr>enc = [(JXL_ENC_SUCCESS, [4 :: byte])], compressed = [1, 2],
             next_out = 2, avail_out = 0\<rparr>) = 2 \<and>
   take 2 (compressed (grow \<lparr>enc = [(JXL_ENC_SUCCESS, [4 :: byte])], compressed = [1, 2],
             next_out = 2, avail_out = 0\<rparr>)) = [1, 2] \<and>
   (2 :: nat) \<le> length (compressed (grow \<lparr>enc = [(JXL_ENC_SUCCESS, [4 :: byte])],
             compressed = [1, 2], next_out = 2, avail_out = 0\<rparr>)) \<and>
   drain_loop stub_produce
     (drain_init 2 [(JXL_ENC_NEED_MORE_OUTPUT, [1, 2, 3]), (JXL_ENC_SUCCESS, [4])] []) =
     Some (JXL_ENC_SUCCESS,
           \<lparr>enc = [], compressed = [1, 2, 4, 0], next_out = 3, avail_out = 1\<rparr>)"
proof -
  let ?script = "[(JXL_ENC_NEED_MORE_OUTPUT, [1, 2, 3]), (JXL_ENC_SUCCESS, [4 :: byte])]"
  let ?s = "drain_init 2 ?script []"
  let ?s1 = "\<lparr>enc = [(JXL_ENC_SUCCESS, [4 :: byte])], compressed = [1, 2], next_out = 2,
             avail_out = 0\<rparr>"
  let ?s2 = "\<lparr>enc = ([] :: (JxlEncoderStatus \<times> byte list) list), compressed = [1, 2, 4, 0],
             next_out = 3, avail_out = 1\<rparr>"
  have r: "drain_reach stub_produce ?s ?s" by (rule drain_reach.start)
  have p: "JxlEncoderProcessOutput stub_produce ?s = (JXL_ENC_NEED_MORE_OUTPUT, ?s1)"
    by (simp add: JxlEncoderProcessOutput_def drain_init_def stub_produce_def resize_def
        numeral_2_eq_2)
  note g1 = drain_growth [OF r p]
  from g1 have r2: "drain_reach stub_produce ?s (grow ?s1)" by blast
  have p2: "JxlEncoderProcessOutput stub_produce (grow ?s1) = (JXL_ENC_SUCCESS, ?s2)"
    by (simp add: JxlEncoderProcessOutput_def grow_def stub_produce_def resize_def
        numeral_2_eq_2)
  note g2 = drain_growth [OF r2 p2]
  have s: "compressed ?s = [0, 0]" by (simp add: drain_init_def resize_def numeral_2_eq_2)
  have c1: "compressed ?s1 = [1, 2]" "next_out ?s1 = 2" by simp_all
  from g1 r2
  have "length (compressed (grow ?s1)) = 2 * length (compressed ?s1)"
    "avail_out (grow ?s1) = 2 * length (compressed ?s1) - next_out ?s1"
    "take (next_out ?s1) (compressed (grow ?s1)) = take (next_out ?s1) (compressed ?s1)"
    "length (compressed ?s) \<le> length (compressed (grow ?s1))"
    by blast+
  then have a: "length (compressed (grow ?s1)) = 4" "avail_out (grow ?s1) = 2"
    "take 2 (compressed (grow ?s1)) = [1, 2]"
    "2 \<le> length (compressed (grow ?s1))"
    unfolding s c1 by simp_all
  from g2 have "drain_loop stub_produce ?s = drain_loop stub_produce (grow ?s1)"
    "drain_loop stub_produce (grow ?s1) = Some (JXL_ENC_SUCCESS, ?s2)"
    by simp_all
  then have l: "drain_loop stub_produce ?s = Some (JXL_ENC_SUCCESS, ?s2)" by simp
  show ?thesis using r p r2 p2 a l by blast
qed

text \<open>
  C3, as the code has it. Let the three set-up calls succeed and let some call of the
  encoder in the course of the drain, the first or a later one, return a status that is
  neither success nor a request for more output. Then \<^verbatim>\<open>EncodeJxlOneshot\<close> returns, and
  returns false after the message for a failed \<^verbatim>\<open>JxlEncoderProcessOutput\<close>, with both
  handles destroyed, and \<^verbatim>\<open>*compressed\<close> cut by line 201 to exactly the bytes the encoder
  wrote up to and in the failing call, which the caller can see.
\<close>

theorem drain_failure_keeps_output:
  assumes "SetParallelRunner api e0 = (JXL_ENC_SUCCESS, e1)"
    and "SetDimensions api e1 w h = (JXL_ENC_SUCCESS, e2)"
    and "AddImageFrame api e2 px (4 * length px) = (JXL_ENC_SUCCESS, e3)"
    and "drain_reach (logged (ProcessOutput api)) (drain_init 64 (e3, []) c0) s"
    and "JxlEncoderProcessOutput (logged (ProcessOutput api)) s = (status, s1)"
    and "status \<noteq> JXL_ENC_SUCCESS" and "status \<noteq> JXL_ENC_NEED_MORE_OUTPUT"
  shows "EncodeJxlOneshot api e0 px w h c0 =
           Some \<lparr>returned = Inl ProcessOutput_failed,
                 compressed_out = concat (snd (enc s1)),
                 handles_out = \<lparr>enc_live = False, runner_live = False\<rparr>,
                 enc_out = fst (enc s1)\<rparr>"
proof -
  let ?p = "ProcessOutput api"
  have i: "strip (drain_init 64 (e3, []) c0) = drain_init 64 e3 c0"
    by (simp add: strip_def drain_init_def)
  have "drain_reach ?p (drain_init 64 e3 c0) (strip s)"
    using reach_strip [OF assms(4)] by (simp only: i)
  then have "drain_loop ?p (drain_init 64 e3 c0) = drain_loop ?p (strip s)"
    by (rule reach_loop)
  also have "\<dots> = Some (status, strip s1)"
    using strip_process [OF assms(5)] assms(7) by (rule drain_loop_stop)
  finally have l: "drain_loop ?p (drain_init 64 e3 c0) = Some (status, strip s1)" .
  have "drain_inv s" using assms(4) drain_inv_init by (rule reach_inv)
  then have "drain_inv s1" using assms(5) by (rule drain_inv_process)
  then have "next_out s1 \<le> length (compressed s1)"
    "take (next_out s1) (compressed s1) = concat (snd (enc s1))"
    by (simp_all add: drain_inv_def)
  then have b: "resize (next_out s1) 0 (compressed s1) = concat (snd (enc s1))"
    by (simp add: resize_exact)
  have d: "drain ?p 64 e3 c0 = Some (status, concat (snd (enc s1)), fst (enc s1))"
    using b by (simp add: drain_def l strip_def)
  show ?thesis
    using assms(1,2,3,6) d
    by (simp add: EncodeJxlOneshot_def JxlEncoderDestroy_def JxlThreadParallelRunnerDestroy_def)
qed

theorem drain_failure_keeps_output_witness:
  "SetParallelRunner stub_encoder [(JXL_ENC_NEED_MORE_OUTPUT, [1, 2]), (JXL_ENC_ERROR, [3])] =
     (JXL_ENC_SUCCESS, [(JXL_ENC_NEED_MORE_OUTPUT, [1, 2]), (JXL_ENC_ERROR, [3])]) \<and>
   SetDimensions stub_encoder [(JXL_ENC_NEED_MORE_OUTPUT, [1, 2]), (JXL_ENC_ERROR, [3])] 1 1 =
     (JXL_ENC_SUCCESS, [(JXL_ENC_NEED_MORE_OUTPUT, [1, 2]), (JXL_ENC_ERROR, [3])]) \<and>
   AddImageFrame stub_encoder [(JXL_ENC_NEED_MORE_OUTPUT, [1, 2]), (JXL_ENC_ERROR, [3])]
       [''abcd'', ''efgh'', ''ijkl''] 12 =
     (JXL_ENC_SUCCESS, [(JXL_ENC_NEED_MORE_OUTPUT, [1, 2]), (JXL_ENC_ERROR, [3])]) \<and>
   drain_reach (logged (ProcessOutput stub_encoder))
     (drain_init 64 ([(JXL_ENC_NEED_MORE_OUTPUT, [1, 2]), (JXL_ENC_ERROR, [3])], []) [])
     (grow (snd (JxlEncoderProcessOutput (logged (ProcessOutput stub_encoder))
        (drain_init 64 ([(JXL_ENC_NEED_MORE_OUTPUT, [1, 2]), (JXL_ENC_ERROR, [3])], []) [])))) \<and>
   fst (JxlEncoderProcessOutput (logged (ProcessOutput stub_encoder))
     (grow (snd (JxlEncoderProcessOutput (logged (ProcessOutput stub_encoder))
        (drain_init 64 ([(JXL_ENC_NEED_MORE_OUTPUT, [1, 2]), (JXL_ENC_ERROR, [3])], []) [])))))
     = JXL_ENC_ERROR \<and>
   JXL_ENC_ERROR \<noteq> JXL_ENC_SUCCESS \<and> JXL_ENC_ERROR \<noteq> JXL_ENC_NEED_MORE_OUTPUT \<and>
   EncodeJxlOneshot stub_encoder [(JXL_ENC_NEED_MORE_OUTPUT, [1, 2]), (JXL_ENC_ERROR, [3])]
       [''abcd'', ''efgh'', ''ijkl''] 1 1 [] =
     Some \<lparr>returned = Inl ProcessOutput_failed, compressed_out = [1, 2, 3],
           handles_out = \<lparr>enc_live = False, runner_live = False\<rparr>, enc_out = []\<rparr>"
proof -
  let ?e = "[(JXL_ENC_NEED_MORE_OUTPUT, [1, 2 :: byte]), (JXL_ENC_ERROR, [3])]"
  let ?L = "logged (ProcessOutput stub_encoder)"
  let ?i = "drain_init 64 (?e, []) []"
  let ?s1 = "snd (JxlEncoderProcessOutput ?L ?i)"
  let ?s2 = "snd (JxlEncoderProcessOutput ?L (grow ?s1))"
  have 1: "SetParallelRunner stub_encoder ?e = (JXL_ENC_SUCCESS, ?e)"
    by (simp add: stub_encoder_def)
  have 2: "SetDimensions stub_encoder ?e 1 1 = (JXL_ENC_SUCCESS, ?e)"
    by (simp add: stub_encoder_def)
  have 3: "AddImageFrame stub_encoder ?e [''abcd'', ''efgh'', ''ijkl'']
             (4 * length [''abcd'', ''efgh'', ''ijkl'']) = (JXL_ENC_SUCCESS, ?e)"
    by (simp add: stub_encoder_def)
  have call: "fst (JxlEncoderProcessOutput ?L t) = st \<and>
      enc (snd (JxlEncoderProcessOutput ?L t)) = (rest, log @ [take (avail_out t) b])"
    if "enc t = ((st, b) # rest, log)" for t st b rest log
    using that
    by (simp add: JxlEncoderProcessOutput_def logged_def stub_encoder_def stub_produce_def
        Let_def)
  have e0: "enc ?i = ((JXL_ENC_NEED_MORE_OUTPUT, [1, 2]) # [(JXL_ENC_ERROR, [3])], [])"
    and a0: "avail_out ?i = 64"
    by (simp_all add: drain_init_def)
  from call [OF e0] have f1: "fst (JxlEncoderProcessOutput ?L ?i) = JXL_ENC_NEED_MORE_OUTPUT"
    and e1': "enc ?s1 = ([(JXL_ENC_ERROR, [3])], [[1, 2]])"
    by (simp_all add: a0)
  from f1 have p1: "JxlEncoderProcessOutput ?L ?i = (JXL_ENC_NEED_MORE_OUTPUT, ?s1)"
    by (simp add: prod_eq_iff)
  have r: "drain_reach ?L ?i (grow ?s1)"
    by (rule drain_reach.retry [OF drain_reach.start p1])
  have e1: "enc (grow ?s1) = ((JXL_ENC_ERROR, [3]) # [], [[1, 2]])"
    using e1' by simp
  have "cursor_ok ?s1" using cursor_ok_init p1 by (rule process_capacity(2))
  then have "cursor_ok (grow ?s1)" by (rule grow_capacity(2))
  moreover have "length (compressed (grow ?s1)) = 128" "next_out (grow ?s1) \<le> 64"
    by (simp_all add: grow_def Let_def JxlEncoderProcessOutput_def drain_init_def
        split: prod.splits)
  ultimately have a1: "1 \<le> avail_out (grow ?s1)" by (simp add: cursor_ok_def)
  from call [OF e1] have f2: "fst (JxlEncoderProcessOutput ?L (grow ?s1)) = JXL_ENC_ERROR"
    and e2: "enc ?s2 = ([], [[1, 2], [3]])"
    using a1 by simp_all
  from f2 have p2: "JxlEncoderProcessOutput ?L (grow ?s1) = (JXL_ENC_ERROR, ?s2)"
    by (simp add: prod_eq_iff)
  have 6: "JXL_ENC_ERROR \<noteq> JXL_ENC_SUCCESS" and 7: "JXL_ENC_ERROR \<noteq> JXL_ENC_NEED_MORE_OUTPUT"
    by simp_all
  from drain_failure_keeps_output [OF 1 2 3 r p2 6 7]
  have "EncodeJxlOneshot stub_encoder ?e [''abcd'', ''efgh'', ''ijkl''] 1 1 [] =
     Some \<lparr>returned = Inl ProcessOutput_failed, compressed_out = [1, 2, 3],
           handles_out = \<lparr>enc_live = False, runner_live = False\<rparr>, enc_out = []\<rparr>"
    by (simp add: e2)
  then show ?thesis using 1 2 3 r f2 by simp
qed

text \<open>
  C3 as the spec words it fails: the stub's first call writes the bytes 1 and 2 and reports
  an error; \<^verbatim>\<open>EncodeJxlOneshot\<close> returns false and the caller's vector holds those two
  bytes.
\<close>

theorem drain_failure_discards_counterexample:
  "EncodeJxlOneshot stub_encoder [(JXL_ENC_ERROR, [1, 2])] [''abcd'', ''efgh'', ''ijkl''] 1 1 []
     = Some \<lparr>returned = Inl ProcessOutput_failed, compressed_out = [1, 2],
             handles_out = \<lparr>enc_live = False, runner_live = False\<rparr>, enc_out = []\<rparr>"
  by (simp add: EncodeJxlOneshot_def stub_encoder_def drain_def drain_init_def
      drain_loop.simps JxlEncoderProcessOutput_def stub_produce_def resize_def
      JxlEncoderDestroy_def JxlThreadParallelRunnerDestroy_def)

text \<open>
  C4 fails on the success path: with an encoder whose calls all succeed,
  \<^verbatim>\<open>EncodeJxlOneshot\<close> returns true having destroyed the encoder (line 209) but not the
  thread-parallel runner, which every failure path destroys.
\<close>

theorem EncodeJxlOneshot_success_keeps_runner:
  "EncodeJxlOneshot stub_encoder [(JXL_ENC_SUCCESS, [1, 2])] [''abcd'', ''efgh'', ''ijkl''] 1 1 []
     = Some \<lparr>returned = Inr (), compressed_out = [1, 2],
             handles_out = \<lparr>enc_live = False, runner_live = True\<rparr>, enc_out = []\<rparr>"
  by (simp add: EncodeJxlOneshot_def stub_encoder_def drain_def drain_init_def
      drain_loop.simps JxlEncoderProcessOutput_def stub_produce_def resize_def
      JxlEncoderDestroy_def JxlThreadParallelRunnerDestroy_def)

section \<open>Properties of \<^verbatim>\<open>ReadPFM\<close>\<close>

subsection \<open>Rows in the opposite order\<close>

lemma rev_rows_0 [simp]: "rev_rows n 0 fl = []"
  by (simp add: rev_rows_def)

lemma rev_rows_Suc: "rev_rows n (Suc h) fl = take n (drop (n * h) fl) @ rev_rows n h fl"
  by (simp add: rev_rows_def)

lemma rev_rows_Suc_drop:
  "rev_rows n (Suc h) fl = rev_rows n h (drop n fl) @ take n fl"
proof -
  have "[0..<Suc h] = 0 # map Suc [0..<h]"
    by (simp add: upt_conv_Cons map_Suc_upt del: upt_Suc)
  then have "rev [0..<Suc h] = rev (map Suc [0..<h]) @ [0]" by simp
  then show ?thesis
    unfolding rev_rows_def by (simp add: rev_map comp_def add.commute del: upt_Suc)
qed

lemma length_rev_rows: "n * h \<le> length fl \<Longrightarrow> length (rev_rows n h fl) = n * h"
proof (induction h)
  case 0
  then show ?case by simp
next
  case (Suc h)
  then have "n * h + n \<le> length fl" by simp
  then show ?case using Suc.IH by (auto simp add: rev_rows_Suc min_def)
qed

lemma rev_rows_take: "rev_rows n h (take (n * h) fl) = rev_rows n h fl"
proof -
  have "take n (drop (n * r) (take (n * h) fl)) = take n (drop (n * r) fl)" if "r < h" for r
  proof -
    from that have "Suc r \<le> h" by simp
    then have "n * Suc r \<le> n * h" by (rule mult_le_mono2)
    then have "n * r + n \<le> n * h" by simp
    then show ?thesis by (simp add: drop_take min_def)
  qed
  then have eq: "map (\<lambda>r. take n (drop (n * r) (take (n * h) fl))) (rev [0..<h]) =
      map (\<lambda>r. take n (drop (n * r) fl)) (rev [0..<h])"
    by (intro map_cong) simp_all
  show ?thesis unfolding rev_rows_def by (simp only: eq)
qed

lemma rev_rows_involution:
  "length fl = n * h \<Longrightarrow> rev_rows n h (rev_rows n h fl) = fl"
proof (induction h arbitrary: fl)
  case 0
  then show ?case by simp
next
  case (Suc h)
  let ?A = "take n (drop (n * h) fl)"
  let ?B = "rev_rows n h fl"
  have lenA: "length ?A = n" using Suc.prems by simp
  have "rev_rows n (Suc h) (rev_rows n (Suc h) fl) = rev_rows n (Suc h) (?A @ ?B)"
    by (simp add: rev_rows_Suc)
  also have "\<dots> = rev_rows n h ?B @ ?A"
    using lenA by (simp add: rev_rows_Suc_drop)
  also have "rev_rows n h ?B = rev_rows n h (rev_rows n h (take (n * h) fl))"
    by (simp add: rev_rows_take)
  also have "\<dots> = take (n * h) fl"
    using Suc.prems by (intro Suc.IH) simp
  also have "take (n * h) fl @ ?A = fl"
  proof -
    have "drop (n * h) fl = ?A" using Suc.prems by simp
    then show ?thesis by (metis append_take_drop_id)
  qed
  finally show ?case .
qed

lemma nth_rev_rows:
  "n * h \<le> length fl \<Longrightarrow> y < h \<Longrightarrow> j < n \<Longrightarrow>
     rev_rows n h fl ! (y * n + j) = fl ! ((h - 1 - y) * n + j)"
proof (induction h arbitrary: y)
  case 0
  then show ?case by simp
next
  case (Suc h)
  have len: "length (take n (drop (n * h) fl)) = n" using Suc.prems(1) by simp
  show ?case
  proof (cases y)
    case 0
    then show ?thesis using Suc.prems len
      by (simp add: rev_rows_Suc nth_append mult.commute)
  next
    case (Suc y')
    then have y': "y' < h" using Suc.prems(2) by simp
    have "n * h \<le> length fl" using Suc.prems(1) by simp
    from Suc.IH [OF this y' Suc.prems(3)]
    have "rev_rows n h fl ! (y' * n + j) = fl ! ((h - 1 - y') * n + j)" .
    moreover have "h - 1 - y' = h - y" using Suc by simp
    moreover have "(y * n + j) - n = y' * n + j" using Suc by simp
    moreover have "\<not> y * n + j < n" using Suc by simp
    ultimately show ?thesis using len
      by (simp add: rev_rows_Suc nth_append)
  qed
qed

subsection \<open>The copy loops\<close>

lemma for_each_append:
  "for_each body (xs @ ys) s =
     (case for_each body xs s of Inl e \<Rightarrow> Inl e | Inr s' \<Rightarrow> for_each body ys s')"
  by (induction xs arbitrary: s) (auto split: sum.splits)

lemma for_each_cong:
  "(\<And>i. i \<in> set xs \<Longrightarrow> body i = body' i) \<Longrightarrow> for_each body xs s = for_each body' xs s"
  by (induction xs arbitrary: s) (auto split: sum.splits)

lemma length_floats [simp]: "length (floats data off n) = n"
  by (simp add: floats_def)

lemma floats_0 [simp]: "floats data off 0 = []"
  by (simp add: floats_def)

lemma floats_Suc:
  "floats data off (Suc n) = floats data off n @ [take 4 (drop (off + 4 * n) data)]"
  by (simp add: floats_def)

lemma floats_add:
  "floats data off (m + n) = floats data off m @ floats data (off + 4 * m) n"
proof (induction n)
  case 0
  then show ?case by (simp add: floats_def)
next
  case (Suc n)
  have "floats data off (m + Suc n) = floats data off (m + n) @ [take 4 (drop (off + 4 * (m + n)) data)]"
    using floats_Suc [of data off "m + n"] by simp
  then show ?case using Suc by (simp add: floats_Suc algebra_simps)
qed

lemma copy_run:
  assumes "b + n \<le> length px" "off + 4 * n \<le> length data"
  shows "for_each (\<lambda>i. memcpy_float data (b + i)) [0..<n] (px, off) =
           Inr (take b px @ floats data off n @ drop (b + n) px, off + 4 * n)"
  using assms
proof (induction n)
  case 0
  then show ?case by simp
next
  case (Suc n)
  let ?px = "take b px @ floats data off n @ drop (b + n) px"
  have IH: "for_each (\<lambda>i. memcpy_float data (b + i)) [0..<n] (px, off) =
           Inr (?px, off + 4 * n)"
    using Suc by simp
  have len: "length ?px = length px" using Suc.prems by simp
  have upd: "?px[b + n := v] = take b px @ (floats data off n @ [v]) @ drop (b + Suc n) px" for v
  proof -
    have "b + n < length px" using Suc.prems by simp
    then have d: "drop (b + n) px = px ! (b + n) # drop (b + Suc n) px"
      by (simp add: Cons_nth_drop_Suc)
    let ?xs = "take b px @ floats data off n"
    have lb: "length ?xs = b + n" using Suc.prems by simp
    have "?px = ?xs @ px ! (b + n) # drop (b + Suc n) px" by (simp add: d)
    then have "?px[b + n := v] = (?xs @ px ! (b + n) # drop (b + Suc n) px)[length ?xs := v]"
      by (simp only: lb)
    also have "\<dots> = ?xs @ v # drop (b + Suc n) px" by (rule list_update_length)
    finally show ?thesis by simp
  qed
  have "for_each (\<lambda>i. memcpy_float data (b + i)) [0..<Suc n] (px, off) =
          memcpy_float data (b + n) (?px, off + 4 * n)"
    by (simp add: for_each_append IH split: sum.splits)
  also have "\<dots> = Inr (?px[b + n := take 4 (drop (off + 4 * n) data)], off + 4 * n + 4)"
    using Suc.prems len by (simp add: memcpy_float_def)
  finally show ?case by (simp add: upd floats_Suc)
qed

lemma for_each_triples:
  "for_each (\<lambda>x. for_each (\<lambda>c. f (3 * x + c)) [0..<3]) [0..<w] s = for_each f [0..<3 * w] s"
proof (induction w)
  case 0
  then show ?case by simp
next
  case (Suc w)
  have three: "[0..<3] = [0, 1, 2 :: nat]" by (simp add: upt_rec)
  have "[0..<3 * Suc w] = [0..<3 * w] @ [3 * w, 3 * w + 1, 3 * w + 2]"
  proof -
    have "[0..<3 * Suc w] = [0..<3 * w] @ [3 * w..<3 * w + 3]"
      by (metis add.commute mult_Suc_right upt_add_eq_append zero_le)
    also have "[3 * w..<3 * w + 3] = [3 * w, 3 * w + 1, 3 * w + 2]"
      by (simp add: upt_rec)
    finally show ?thesis .
  qed
  then show ?case
    using Suc by (simp add: for_each_append three split: sum.splits)
qed

lemma pixel_index_eq:
  assumes "(y * unat xs + x) * 3 + c < 2 ^ 32"
  shows "pixel_index xs y x c = (y * unat xs + x) * 3 + c"
proof -
  have "(of_nat y * xs + of_nat x) * 3 + of_nat c = (of_nat ((y * unat xs + x) * 3 + c) :: 32 word)"
    by simp
  then have "pixel_index xs y x c = unat (of_nat ((y * unat xs + x) * 3 + c) :: 32 word)"
    by (simp only: pixel_index_def)
  also have "\<dots> = (y * unat xs + x) * 3 + c"
    using assms by (subst unat_of_nat) simp
  finally show ?thesis .
qed

lemma copy_row:
  fixes xs :: "32 word"
  defines "w \<equiv> unat xs"
  assumes "3 * w * Suc y \<le> length px" "off + 12 * w \<le> length data" "length px < 2 ^ 32"
  shows "for_each (\<lambda>x. for_each (\<lambda>c. memcpy_float data (pixel_index xs y x c)) [0..<3])
           [0..<w] (px, off) =
         Inr (take (3 * w * y) px @ floats data off (3 * w) @ drop (3 * w * Suc y) px,
              off + 12 * w)"
proof -
  have idx: "pixel_index xs y x c = 3 * w * y + (3 * x + c)" if "x < w" "c < 3" for x c
  proof -
    have "3 * x + c < 3 * w" using that by simp
    then have "3 * w * y + (3 * x + c) < 3 * w * Suc y" by simp
    then have "(y * unat xs + x) * 3 + c < 2 ^ 32"
      using assms(2,4) by (simp add: w_def algebra_simps)
    from pixel_index_eq [OF this] show ?thesis by (simp add: w_def algebra_simps)
  qed
  have "for_each (\<lambda>x. for_each (\<lambda>c. memcpy_float data (pixel_index xs y x c)) [0..<3])
           [0..<w] (px, off) =
        for_each (\<lambda>x. for_each (\<lambda>c. memcpy_float data (3 * w * y + (3 * x + c))) [0..<3])
           [0..<w] (px, off)"
    by (intro for_each_cong ext) (simp add: idx)
  also have "\<dots> = for_each (\<lambda>i. memcpy_float data (3 * w * y + i)) [0..<3 * w] (px, off)"
    by (rule for_each_triples [where f = "\<lambda>i. memcpy_float data (3 * w * y + i)"])
  also have "\<dots> = Inr (take (3 * w * y) px @ floats data off (3 * w) @
                         drop (3 * w * y + 3 * w) px, off + 4 * (3 * w))"
    using assms(2,3) by (intro copy_run) simp_all
  finally show ?thesis by (simp add: add.commute)
qed

lemma copy_rows:
  fixes xs :: "32 word"
  defines "w \<equiv> unat xs"
  assumes "3 * w * h \<le> length px" "off + 12 * w * h \<le> length data" "length px < 2 ^ 32"
  shows "for_each (\<lambda>y. for_each (\<lambda>x. for_each (\<lambda>c.
            memcpy_float data (pixel_index xs y x c)) [0..<3]) [0..<w]) (rev [0..<h]) (px, off) =
         Inr (rev_rows (3 * w) h (floats data off (3 * w * h)) @ drop (3 * w * h) px,
              off + 12 * w * h)"
  using assms(2-)
proof (induction h arbitrary: px off)
  case 0
  then show ?case by simp
next
  case (Suc h)
  let ?row = "\<lambda>y. for_each (\<lambda>x. for_each (\<lambda>c.
            memcpy_float data (pixel_index xs y x c)) [0..<3]) [0..<w]"
  let ?px1 = "take (3 * w * h) px @ floats data off (3 * w) @ drop (3 * w * Suc h) px"
  have row: "?row h (px, off) = Inr (?px1, off + 12 * w)"
    unfolding w_def using Suc.prems by (intro copy_row) (simp_all add: w_def)
  have len1: "length ?px1 = length px" using Suc.prems by simp
  have "3 * w * h \<le> length ?px1" "off + 12 * w + 12 * w * h \<le> length data"
    "length ?px1 < 2 ^ 32"
    using Suc.prems len1 by simp_all
  from Suc.IH [OF this]
  have rest: "for_each ?row (rev [0..<h]) (?px1, off + 12 * w) =
      Inr (rev_rows (3 * w) h (floats data (off + 12 * w) (3 * w * h)) @ drop (3 * w * h) ?px1,
           off + 12 * w + 12 * w * h)" .
  have d: "drop (3 * w * h) ?px1 = floats data off (3 * w) @ drop (3 * w * Suc h) px"
    using Suc.prems by simp
  have fl: "floats data off (3 * w * Suc h) =
      floats data off (3 * w) @ floats data (off + 12 * w) (3 * w * h)"
    using floats_add [of data off "3 * w" "3 * w * h"] by simp
  have rr: "rev_rows (3 * w) (Suc h) (floats data off (3 * w * Suc h)) =
      rev_rows (3 * w) h (floats data (off + 12 * w) (3 * w * h)) @ floats data off (3 * w)"
    by (simp only: fl rev_rows_Suc_drop) simp
  have "for_each ?row (rev [0..<Suc h]) (px, off) =
      for_each ?row (rev [0..<h]) (?px1, off + 12 * w)"
    by (simp add: row)
  also note rest
  also have "Inr (rev_rows (3 * w) h (floats data (off + 12 * w) (3 * w * h)) @
                  drop (3 * w * h) ?px1, off + 12 * w + 12 * w * h) =
      (Inr (rev_rows (3 * w) (Suc h) (floats data off (3 * w * Suc h)) @
            drop (3 * w * Suc h) px, off + 12 * w * Suc h) :: error + float list \<times> nat)"
    by (simp only: d rr) simp
  finally show ?case .
qed

subsection \<open>The loop bounds as \<^verbatim>\<open>int\<close>\<close>

lemma sint_small:
  fixes x :: "32 word"
  assumes "unat x < 2 ^ 31"
  shows "sint x = int (unat x)"
proof -
  have "int (unat x) < int (2 ^ 31)" using assms by (simp only: of_nat_less_iff)
  then have "uint x < 2 ^ 31" by simp
  moreover have "- (2 ^ 31) \<le> uint x"
  proof -
    have "- (2 ^ 31) \<le> (0 :: int)" by simp
    also have "0 \<le> uint x" by simp
    finally show ?thesis .
  qed
  ultimately have "signed_take_bit 31 (uint x) = uint x"
    by (intro signed_take_bit_int_eq_self)
  then show ?thesis by (simp add: sint_uint)
qed

lemma loop_bound_x:
  fixes xs :: "32 word"
  assumes "unat xs < 2 ^ 31"
  shows "nat (sint xs) = unat xs"
  using sint_small [OF assms] by simp

lemma loop_bound_y:
  fixes ys :: "32 word"
  assumes "unat ys < 2 ^ 31"
  shows "nat (sint (ys - 1) + 1) = unat ys"
proof (cases "ys = 0")
  case True
  then show ?thesis by simp
next
  case False
  then have u: "unat (ys - 1) = unat ys - 1" by (rule unat_minus_one)
  then have "unat (ys - 1) < 2 ^ 31" using assms by simp
  from sint_small [OF this] have "sint (ys - 1) = int (unat ys - 1)" by (simp add: u)
  moreover have "0 < unat ys" using False by (simp add: unat_gt_0)
  ultimately show ?thesis by simp
qed

lemma copy_pixels_eq:
  fixes xs ys :: "32 word"
  defines "w \<equiv> unat xs" and "h \<equiv> unat ys"
  assumes "w < 2 ^ 31" "h < 2 ^ 31"
    and "3 * w * h \<le> length px" "off + 12 * w * h \<le> length data" "length px < 2 ^ 32"
  shows "copy_pixels data xs ys (px, off) =
           Inr (rev_rows (3 * w) h (floats data off (3 * w * h)) @ drop (3 * w * h) px,
                off + 12 * w * h)"
proof -
  have x: "nat (sint xs) = w" using assms(3) unfolding w_def by (rule loop_bound_x)
  have y: "nat (sint (ys - 1) + 1) = h" using assms(4) unfolding h_def by (rule loop_bound_y)
  show ?thesis
    unfolding copy_pixels_def x y
    using assms(5-) unfolding w_def by (rule copy_rows)
qed

subsection \<open>What a run of the loops that succeeds has read\<close>

lemma advancesD:
  "advances L k f \<Longrightarrow> f s = Inr s' \<Longrightarrow>
     snd s' = snd s + k \<and> length (fst s') = length (fst s) \<and> (0 < k \<longrightarrow> snd s' \<le> L)"
  unfolding advances_def by blast

lemma advances_memcpy: "advances (length data) 4 (memcpy_float data i)"
  by (auto simp add: advances_def memcpy_float_def split: if_splits)

lemma advances_for_each:
  assumes "\<And>i. advances L k (body i)"
  shows "advances L (k * length xs) (for_each body xs)"
proof (induction xs)
  case Nil
  then show ?case by (simp add: advances_def)
next
  case (Cons i xs)
  show ?case
    unfolding advances_def
  proof (intro allI impI)
    fix s s'
    assume "for_each body (i # xs) s = Inr s'"
    then obtain s1 where 1: "body i s = Inr s1" and 2: "for_each body xs s1 = Inr s'"
      by (auto split: sum.splits)
    from advancesD [OF assms 1]
    have a: "snd s1 = snd s + k" "length (fst s1) = length (fst s)"
      "0 < k \<longrightarrow> snd s1 \<le> L"
      by blast+
    from advancesD [OF Cons 2]
    have b: "snd s' = snd s1 + k * length xs" "length (fst s') = length (fst s1)"
      "0 < k * length xs \<longrightarrow> snd s' \<le> L"
      by blast+
    show "snd s' = snd s + k * length (i # xs) \<and> length (fst s') = length (fst s) \<and>
          (0 < k * length (i # xs) \<longrightarrow> snd s' \<le> L)"
      using a b by (cases xs) auto
  qed
qed

lemma advances_copy_pixels:
  "advances (length data) (12 * nat (sint xs) * nat (sint (ys - 1) + 1)) (copy_pixels data xs ys)"
proof -
  have "advances (length data) (4 * length [0..<3::nat])
          (for_each (\<lambda>c. memcpy_float data (pixel_index xs y x c)) [0..<3])" for y x
    by (intro advances_for_each advances_memcpy)
  then have 1: "advances (length data) 12
          (for_each (\<lambda>c. memcpy_float data (pixel_index xs y x c)) [0..<3])" for y x
    by simp
  have "advances (length data) (12 * length [0..<nat (sint xs)])
          (for_each (\<lambda>x. for_each (\<lambda>c. memcpy_float data (pixel_index xs y x c)) [0..<3])
             [0..<nat (sint xs)])" for y
    by (intro advances_for_each 1)
  then have 2: "advances (length data) (12 * nat (sint xs))
          (for_each (\<lambda>x. for_each (\<lambda>c. memcpy_float data (pixel_index xs y x c)) [0..<3])
             [0..<nat (sint xs)])" for y
    by simp
  have "advances (length data)
          (12 * nat (sint xs) * length (rev [0..<nat (sint (ys - 1) + 1)]))
          (copy_pixels data xs ys)"
    unfolding copy_pixels_def by (intro advances_for_each 2)
  then show ?thesis by simp
qed

subsection \<open>When \<^verbatim>\<open>ReadPFM\<close> returns true\<close>

lemma ReadPFM_InrD:
  assumes "ReadPFM le (Contents data) img = (Inr (), img1)"
  defines "h \<equiv> header_tokens data"
  shows "\<exists>xi yi off'.
     pf_token h = ''PF'' \<and> stoi (xsize_token h) = Inr xi \<and> stoi (ysize_token h) = Inr yi \<and>
     endianness_token h = (if le then ''-1.0'' else ''1.0'') \<and>
     xsize img1 = word_of_int xi \<and> ysize img1 = word_of_int yi \<and>
     length data = unat (ysize img1 * xsize img1 * 3 * 4) + header_offset h \<and>
     copy_pixels data (xsize img1) (ysize img1)
       (resize (unat (ysize img1 * xsize img1 * 3)) zero_float (pixels img), header_offset h)
       = Inr (pixels img1, off')"
  using assms(1) unfolding ReadPFM_def h_def Let_def
  by (auto split: sum.splits if_splits option.splits prod.splits)

lemma ReadPFM_InrI:
  assumes "pf_token (header_tokens data) = ''PF''"
    and "stoi (xsize_token (header_tokens data)) = Inr xi"
    and "stoi (ysize_token (header_tokens data)) = Inr yi"
    and "endianness_token (header_tokens data) = (if le then ''-1.0'' else ''1.0'')"
    and "length data = unat (word_of_int yi * word_of_int xi * 3 * 4 :: 32 word)
           + header_offset (header_tokens data)"
    and "copy_pixels data (word_of_int xi) (word_of_int yi)
       (resize (unat (word_of_int yi * word_of_int xi * 3 :: 32 word)) zero_float (pixels img),
        header_offset (header_tokens data))
       = Inr (px, off')"
  shows "ReadPFM le (Contents data) img =
           (Inr (), img\<lparr>xsize := word_of_int xi, ysize := word_of_int yi, pixels := px\<rparr>)"
  using assms unfolding ReadPFM_def Let_def
  by (auto split: sum.splits if_splits option.splits prod.splits)

lemma unat_times3: "unat (a * b * 3 :: 32 word) = (unat a * unat b * 3) mod 2 ^ 32"
  by (simp add: unat_word_ariths mod_mult_left_eq mod_mult_right_eq)

lemma unat_times12: "unat (a * b * 3 * 4 :: 32 word) = (unat a * unat b * 12) mod 2 ^ 32"
proof -
  have "a * b * 3 * 4 = a * b * 12" by simp
  then show ?thesis
    by (simp add: unat_word_ariths mod_mult_left_eq mod_mult_right_eq mult.commute)
qed

lemma unat_dims12:
  "unat (word_of_int yi * word_of_int xi * 3 * 4 :: 32 word) = nat ((yi * xi * 12) mod 2 ^ 32)"
proof -
  have "(word_of_int yi * word_of_int xi * 3 * 4 :: 32 word) = word_of_int (yi * xi * 12)"
    by simp
  then have "uint (word_of_int yi * word_of_int xi * 3 * 4 :: 32 word) = (yi * xi * 12) mod 2 ^ 32"
    by (simp only: uint_word_of_int) simp
  then show ?thesis by (simp only: unat_eq_nat_uint)
qed

subsection \<open>Loops that do not run, loops that fail at once\<close>

lemma for_each_skip:
  "(\<And>i s. i \<in> set xs \<Longrightarrow> body i s = Inr s) \<Longrightarrow> for_each body xs s = Inr s"
  by (induction xs) simp_all

lemma copy_pixels_no_columns: "nat (sint xs) = 0 \<Longrightarrow> copy_pixels data xs ys s = Inr s"
  unfolding copy_pixels_def by (intro for_each_skip) simp

lemma copy_pixels_no_rows: "nat (sint (ys - 1) + 1) = 0 \<Longrightarrow> copy_pixels data xs ys s = Inr s"
  unfolding copy_pixels_def by simp

lemma copy_pixels_empty_vector:
  assumes "0 < nat (sint xs)" "0 < nat (sint (ys - 1) + 1)"
  shows "copy_pixels data xs ys ([], off) = Inl Out_of_bounds"
proof -
  obtain m where m: "nat (sint xs) = Suc m" using assms(1) by (cases "nat (sint xs)") simp_all
  obtain n where n: "nat (sint (ys - 1) + 1) = Suc n"
    using assms(2) by (cases "nat (sint (ys - 1) + 1)") simp_all
  have x: "[0..<Suc m] = 0 # [1..<Suc m]" by (simp add: upt_conv_Cons)
  have c: "[0..<3] = [0, 1, 2 :: nat]" by (simp add: upt_rec)
  have r: "rev [0..<Suc n] = n # rev [0..<n]" by simp
  have "memcpy_float data i ([], off) = Inl Out_of_bounds" for i
    by (simp add: memcpy_float_def)
  then show ?thesis
    unfolding copy_pixels_def m n r x c by simp
qed

subsection \<open>Decimal numbers and the header written back\<close>

lemma of_char_digit_char: "d < 10 \<Longrightarrow> (of_char (digit_char d) :: nat) = 48 + d"
  by (simp add: digit_char_def)

lemma of_char_digit_char_int: "d < 10 \<Longrightarrow> (of_char (digit_char d) :: int) = 48 + int d"
proof -
  assume "d < 10"
  then have "int (of_char (digit_char d) :: nat) = int (48 + d)"
    by (simp only: of_char_digit_char)
  then show ?thesis by (simp add: of_nat_of_char)
qed

lemma isdigit_digit_char: "d < 10 \<Longrightarrow> isdigit (digit_char d)"
  by (simp add: isdigit_def of_char_digit_char)

lemma dec_digits: "c \<in> set (dec n) \<Longrightarrow> isdigit c"
proof (induction n rule: dec.induct)
  case (1 n)
  show ?case
  proof (cases "n < 10")
    case True
    then show ?thesis using "1.prems" by (simp add: dec.simps [of n] isdigit_digit_char)
  next
    case False
    then show ?thesis
      using "1.prems" "1.IH" by (auto simp add: dec.simps [of n] isdigit_digit_char)
  qed
qed

lemma dec_nonempty: "dec n \<noteq> []"
  by (subst dec.simps) simp

lemma digits_value_snoc:
  "digits_value (ds @ [c]) = digits_value ds * 10 + (of_char c - 48)"
  by (simp add: digits_value_def)

lemma digits_value_dec: "digits_value (dec n) = int n"
proof (induction n rule: dec.induct)
  case (1 n)
  show ?case
  proof (cases "n < 10")
    case True
    then show ?thesis
      by (simp add: dec.simps [of n] digits_value_def of_char_digit_char_int)
  next
    case False
    have "int (n div 10) * 10 + int (n mod 10) = int n"
      by (metis mult.commute of_nat_add of_nat_mult of_nat_numeral div_mult_mod_eq)
    then show ?thesis
      using False "1.IH"
      by (simp add: dec.simps [of n] digits_value_snoc of_char_digit_char_int)
  qed
qed

lemma isdigit_plain:
  assumes "isdigit c"
  shows "\<not> isspace c" "c \<noteq> CHR ''-''" "c \<noteq> CHR ''+''" "c \<noteq> CHR '' ''" "c \<noteq> CHR ''\<newline>''"
  using assms by (auto simp add: isdigit_def isspace_def)

lemma stoi_dec:
  assumes "n < 2 ^ 31"
  shows "stoi (dec n) = Inr (int n)"
proof -
  obtain c cs where d: "dec n = c # cs" using dec_nonempty [of n] by (cases "dec n") auto
  have c: "isdigit c" using dec_digits [of c n] d by simp
  have dw: "dropWhile isspace (dec n) = dec n" using isdigit_plain(1) [OF c] d by simp
  have tw: "takeWhile isdigit (dec n) = dec n"
    using dec_digits by (simp add: takeWhile_eq_all_conv)
  have "int n < 2 ^ 31" using assms by (metis of_nat_less_iff of_nat_numeral of_nat_power)
  then have rng: "\<not> (int n < - (2 ^ 31) \<or> 2 ^ 31 - 1 < int n)" by simp
  have hd: "hd (dec n) \<noteq> CHR ''-''" "hd (dec n) \<noteq> CHR ''+''"
    using isdigit_plain(2,3) [OF c] d by simp_all
  show ?thesis
    unfolding stoi_def Let_def dw
    using hd rng dec_nonempty [of n] by (simp add: tw digits_value_dec)
qed

lemma getline_delim:
  "d \<notin> set a \<Longrightarrow> getline (a @ d # rest) d = (a, rest)"
  by (simp add: getline_def takeWhile_tail dropWhile_append)

lemma dec_no_delim: "CHR '' '' \<notin> set (dec n)" "CHR ''\<newline>'' \<notin> set (dec n)"
  using dec_digits isdigit_plain(4,5) by blast+

lemma header_tokens_text:
  "header_tokens (header_text le img @ p) =
     \<lparr>pf_token = ''PF'', xsize_token = dec (unat (xsize img)),
      ysize_token = dec (unat (ysize img)),
      endianness_token = (if le then ''-1.0'' else ''1.0'')\<rparr>"
proof -
  let ?et = "if le then ''-1.0'' else ''1.0''"
  let ?s3 = "?et @ CHR ''\<newline>'' # p"
  let ?s2 = "dec (unat (ysize img)) @ CHR ''\<newline>'' # ?s3"
  let ?s1 = "dec (unat (xsize img)) @ CHR '' '' # ?s2"
  have 0: "header_text le img @ p = ''PF'' @ CHR ''\<newline>'' # ?s1"
    by (simp add: header_text_def)
  have g1: "getline (''PF'' @ CHR ''\<newline>'' # ?s1) CHR ''\<newline>'' = (''PF'', ?s1)"
    by (rule getline_delim) simp
  have g2: "getline ?s1 CHR '' '' = (dec (unat (xsize img)), ?s2)"
    by (rule getline_delim) (rule dec_no_delim)
  have g3: "getline ?s2 CHR ''\<newline>'' = (dec (unat (ysize img)), ?s3)"
    by (rule getline_delim) (rule dec_no_delim)
  have g4: "getline ?s3 CHR ''\<newline>'' = (?et, p)"
    by (rule getline_delim) simp
  show ?thesis
    unfolding header_tokens_def 0 g1 Let_def prod.case g2 g3 g4 ..
qed

lemma header_offset_text:
  "header_offset (header_tokens (header_text le img @ p)) = length (header_text le img)"
  unfolding header_tokens_text by (simp add: header_offset_def header_text_def)

lemma concat_floats:
  "off + 4 * n \<le> length data \<Longrightarrow> concat (floats data off n) = take (4 * n) (drop off data)"
proof (induction n)
  case 0
  then show ?case by simp
next
  case (Suc n)
  have "take (4 * Suc n) (drop off data) =
      take (4 * n) (drop off data) @ take 4 (drop (4 * n) (drop off data))"
    using take_add [of "4 * n" 4 "drop off data"] by (simp add: add.commute)
  then show ?case using Suc by (simp add: floats_Suc add.commute)
qed

lemma floats_append: "floats (a @ p) (length a) n = floats p 0 n"
  by (simp add: floats_def)

lemma floats_drop: "floats data off n = floats (drop off data) 0 n"
  by (simp add: floats_def add.commute)

lemma float_lengths:
  "off + 4 * n \<le> length data \<Longrightarrow> fl \<in> set (floats data off n) \<Longrightarrow> length fl = 4"
  by (auto simp add: floats_def)

lemma isdigit_value: "isdigit c \<Longrightarrow> 0 \<le> (of_char c :: int) - 48"
proof -
  assume "isdigit c"
  then have "(48 :: nat) \<le> of_char c" by (simp add: isdigit_def)
  then have "int 48 \<le> int (of_char c)" by (simp only: of_nat_le_iff)
  then show ?thesis by (simp add: of_nat_of_char)
qed

lemma foldl_digits_nonneg:
  "list_all isdigit ds \<Longrightarrow> 0 \<le> v \<Longrightarrow>
     0 \<le> foldl (\<lambda>v c. v * 10 + ((of_char c :: int) - 48)) v ds"
proof (induction ds arbitrary: v)
  case Nil
  then show ?case by simp
next
  case (Cons c ds)
  have "0 \<le> v * 10 + ((of_char c :: int) - 48)"
    using Cons.prems isdigit_value [of c] by simp
  then show ?case using Cons by simp
qed

lemma digits_value_nonneg: "list_all isdigit ds \<Longrightarrow> 0 \<le> digits_value ds"
  unfolding digits_value_def by (rule foldl_digits_nonneg) simp_all

lemma stoi_decimal:
  assumes "decimal s"
  shows "stoi s = (if 2 ^ 31 - 1 < digits_value s then Inl Stoi_out_of_range
                   else Inr (digits_value s))"
proof -
  obtain c cs where d: "s = c # cs" using assms by (cases s) (auto simp add: decimal_def)
  have all: "list_all isdigit s" using assms by (simp add: decimal_def)
  then have c: "isdigit c" using d by simp
  have dw: "dropWhile isspace s = s" using isdigit_plain(1) [OF c] d by simp
  have tw: "takeWhile isdigit s = s"
    using all by (simp add: takeWhile_eq_all_conv list_all_iff)
  have hd: "hd s \<noteq> CHR ''-''" "hd s \<noteq> CHR ''+''"
    using isdigit_plain(2,3) [OF c] d by simp_all
  have "0 \<le> digits_value s" using all by (rule digits_value_nonneg)
  then have lo: "\<not> digits_value s < - (2 ^ 31)" by simp
  have ne: "s \<noteq> []" using d by simp
  show ?thesis
    unfolding stoi_def Let_def dw
    using hd lo ne by (simp add: tw)
qed

lemma stoi_decimal_Inr:
  assumes "decimal s" "stoi s = Inr v"
  shows "v = digits_value s" "0 \<le> v" "v < 2 ^ 31"
proof -
  have all: "list_all isdigit s" using assms(1) by (simp add: decimal_def)
  from assms show v: "v = digits_value s" by (simp add: stoi_decimal split: if_splits)
  show "0 \<le> v" unfolding v using all by (rule digits_value_nonneg)
  from assms show "v < 2 ^ 31" by (simp add: stoi_decimal split: if_splits)
qed

lemma decimal_no_delim:
  assumes "decimal s"
  shows "CHR '' '' \<notin> set s" "CHR ''\<newline>'' \<notin> set s"
  using assms isdigit_plain(4,5) by (auto simp add: decimal_def list_all_iff)

lemma header_tokens_pfm_header:
  assumes "CHR '' '' \<notin> set xt" "CHR ''\<newline>'' \<notin> set yt" "CHR ''\<newline>'' \<notin> set et"
  shows "header_tokens (pfm_header xt yt et @ p) =
     \<lparr>pf_token = ''PF'', xsize_token = xt, ysize_token = yt, endianness_token = et\<rparr>"
proof -
  let ?s3 = "et @ CHR ''\<newline>'' # p"
  let ?s2 = "yt @ CHR ''\<newline>'' # ?s3"
  let ?s1 = "xt @ CHR '' '' # ?s2"
  have 0: "pfm_header xt yt et @ p = ''PF'' @ CHR ''\<newline>'' # ?s1"
    by (simp add: pfm_header_def)
  have g1: "getline (''PF'' @ CHR ''\<newline>'' # ?s1) CHR ''\<newline>'' = (''PF'', ?s1)"
    by (rule getline_delim) simp
  have g2: "getline ?s1 CHR '' '' = (xt, ?s2)"
    using assms(1) by (rule getline_delim)
  have g3: "getline ?s2 CHR ''\<newline>'' = (yt, ?s3)"
    using assms(2) by (rule getline_delim)
  have g4: "getline ?s3 CHR ''\<newline>'' = (et, p)"
    using assms(3) by (rule getline_delim)
  show ?thesis
    unfolding header_tokens_def 0 g1 Let_def prod.case g2 g3 g4 ..
qed

lemma uint_small: "0 \<le> v \<Longrightarrow> v < 2 ^ 31 \<Longrightarrow> uint (word_of_int v :: 32 word) = v"
proof -
  assume a: "0 \<le> v" "v < 2 ^ 31"
  have "(2 :: int) ^ 31 \<le> 2 ^ 32" by simp
  then have "v < 2 ^ 32" using a(2) by linarith
  then have "v mod 2 ^ 32 = v" using a(1) by simp
  then show ?thesis by (simp add: uint_word_of_int)
qed

subsection \<open>Two steps towards the claims\<close>

lemma empty_image_accepted:
  assumes "pf_token (header_tokens data) = ''PF''"
    and "stoi (xsize_token (header_tokens data)) = Inr xi"
    and "stoi (ysize_token (header_tokens data)) = Inr yi"
    and "xi = 0 \<or> yi = 0"
    and "endianness_token (header_tokens data) = (if le then ''-1.0'' else ''1.0'')"
    and "length data = header_offset (header_tokens data)"
  shows "ReadPFM le (Contents data) img =
           (Inr (), \<lparr>pixels = [], xsize = word_of_int xi, ysize = word_of_int yi\<rparr>)"
proof -
  have z: "(word_of_int yi * word_of_int xi :: 32 word) = 0" using assms(4) by auto
  have z12: "unat (word_of_int yi * word_of_int xi * 3 * 4 :: 32 word) = 0"
    and z3: "unat (word_of_int yi * word_of_int xi * 3 :: 32 word) = 0"
    by (simp_all add: z)
  have "nat (sint (word_of_int xi :: 32 word)) = 0 \<or>
        nat (sint (word_of_int yi - 1 :: 32 word) + 1) = 0"
    using assms(4) by auto
  then have copy: "copy_pixels data (word_of_int xi) (word_of_int yi)
      ([], header_offset (header_tokens data)) = Inr ([], header_offset (header_tokens data))"
    using copy_pixels_no_columns copy_pixels_no_rows by blast
  have r: "resize 0 zero_float (pixels img) = []" by (simp add: resize_def)
  have size: "length data = unat (word_of_int yi * word_of_int xi * 3 * 4 :: 32 word)
           + header_offset (header_tokens data)"
    using assms(6) by (simp only: z12 add_0)
  have copy': "copy_pixels data (word_of_int xi) (word_of_int yi)
       (resize (unat (word_of_int yi * word_of_int xi * 3 :: 32 word)) zero_float (pixels img),
        header_offset (header_tokens data))
       = Inr ([], header_offset (header_tokens data))"
    by (simp only: z3 r copy)
  from ReadPFM_InrI [OF assms(1,2,3,5) size copy'] show ?thesis by simp
qed

lemma round_trip_below:
  assumes "ReadPFM le (Contents data) img = (Inr (), img1)"
    and "unat (xsize img1) < 2 ^ 31" and "unat (ysize img1) < 2 ^ 31"
  shows "ReadPFM le (Contents (WritePFM le img1)) img' = (Inr (), img1)"
proof -
  let ?w = "unat (xsize img1)" and ?h = "unat (ysize img1)"
  let ?off = "header_offset (header_tokens data)"
  let ?px = "resize (unat (ysize img1 * xsize img1 * 3)) zero_float (pixels img)"
  from ReadPFM_InrD [OF assms(1)] obtain off' where
    size: "length data = unat (ysize img1 * xsize img1 * 3 * 4) + ?off" and
    copy: "copy_pixels data (xsize img1) (ysize img1) (?px, ?off) = Inr (pixels img1, off')"
    by blast
  have lx: "nat (sint (xsize img1)) = ?w" using assms(2) by (rule loop_bound_x)
  have ly: "nat (sint (ysize img1 - 1) + 1) = ?h" using assms(3) by (rule loop_bound_y)
  from advancesD [OF advances_copy_pixels copy]
  have adv: "off' = ?off + 12 * ?w * ?h" "0 < 12 * ?w * ?h \<longrightarrow> off' \<le> length data"
    by (auto simp add: lx ly)
  have u12: "unat (ysize img1 * xsize img1 * 3 * 4) = ?h * ?w * 12"
  proof (cases "?w = 0 \<or> ?h = 0")
    case True
    then have "xsize img1 = 0 \<or> ysize img1 = 0" by (simp add: unat_eq_zero)
    then have "ysize img1 * xsize img1 * 3 * 4 = 0" by auto
    then show ?thesis using True by auto
  next
    case False
    then have "0 < 12 * ?w * ?h" by simp
    then have "?off + 12 * ?w * ?h \<le> length data" using adv by simp
    then have "12 * ?w * ?h \<le> unat (ysize img1 * xsize img1 * 3 * 4)" using size by linarith
    moreover have "12 * ?w * ?h = ?h * ?w * 12" by simp
    ultimately have "?h * ?w * 12 \<le> (?h * ?w * 12) mod 2 ^ 32"
      by (simp only: unat_times12)
    moreover have "(?h * ?w * 12) mod 2 ^ 32 \<le> ?h * ?w * 12" by (rule mod_less_eq_dividend)
    ultimately have "(?h * ?w * 12) mod 2 ^ 32 = ?h * ?w * 12" by (rule order_antisym [rotated])
    then show ?thesis by (simp only: unat_times12)
  qed
  then have "(?h * ?w * 12) mod 2 ^ 32 = ?h * ?w * 12" by (simp only: unat_times12)
  moreover have "(?h * ?w * 12) mod 2 ^ 32 < (2 ^ 32 :: nat)" by simp
  ultimately have "?h * ?w * 12 < 2 ^ 32" by (simp only:)
  then have small': "?h * ?w * 12 < 4294967296" by simp
  have small3: "?h * ?w * 3 < 4294967296" using small' by linarith
  then have "?h * ?w * 3 < 2 ^ 32" by simp
  then have "(?h * ?w * 3) mod 2 ^ 32 = ?h * ?w * 3" by (rule mod_less)
  then have u3: "unat (ysize img1 * xsize img1 * 3) = ?h * ?w * 3" by (simp only: unat_times3)
  have comm: "3 * ?w * ?h = ?h * ?w * 3" "12 * ?w * ?h = ?h * ?w * 12" by simp_all
  have len: "length data = ?off + 12 * ?w * ?h" using size u12 by (simp only: comm)
  let ?fl = "floats data ?off (3 * ?w * ?h)"
  have lpx: "length ?px = 3 * ?w * ?h" by (simp only: length_resize u3 comm)
  have b1: "3 * ?w * ?h \<le> length ?px" by (simp only: lpx order_refl)
  have b2: "?off + 12 * ?w * ?h \<le> length data" by (simp only: len order_refl)
  have b3: "length ?px < 2 ^ 32" unfolding lpx comm using small3 by simp
  from copy_pixels_eq [OF assms(2,3) b1 b2 b3] copy
  have "pixels img1 = rev_rows (3 * ?w) ?h ?fl @ drop (3 * ?w * ?h) ?px" by simp
  moreover have "drop (3 * ?w * ?h) ?px = []" using lpx by simp
  ultimately have px: "pixels img1 = rev_rows (3 * ?w) ?h ?fl" by simp
  have "rev_rows (3 * ?w) ?h (pixels img1) = ?fl"
    unfolding px by (rule rev_rows_involution) simp
  then have "concat (rev_rows (3 * ?w) ?h (pixels img1)) = concat ?fl" by simp
  also have "\<dots> = take (4 * (3 * ?w * ?h)) (drop ?off data)"
    using b2 by (intro concat_floats) simp
  also have "\<dots> = drop ?off data" using len by simp
  finally have wr: "WritePFM le img1 = header_text le img1 @ drop ?off data"
    by (simp only: WritePFM_def)
  let ?data2 = "header_text le img1 @ drop ?off data"
  let ?off2 = "header_offset (header_tokens ?data2)"
  let ?px2 = "resize (unat (ysize img1 * xsize img1 * 3)) zero_float (pixels img')"
  have off2: "?off2 = length (header_text le img1)" by (rule header_offset_text)
  have len2: "length ?data2 = ?off2 + 12 * ?w * ?h" using len off2 by simp
  have fl2: "floats ?data2 ?off2 (3 * ?w * ?h) = ?fl"
    unfolding off2 floats_append by (rule floats_drop [symmetric])
  have lpx2: "length ?px2 = 3 * ?w * ?h" by (simp only: length_resize u3 comm)
  have c1: "3 * ?w * ?h \<le> length ?px2" by (simp only: lpx2 order_refl)
  have c2: "?off2 + 12 * ?w * ?h \<le> length ?data2" by (simp only: len2 order_refl)
  have c3: "length ?px2 < 2 ^ 32" unfolding lpx2 comm using small3 by simp
  have "drop (3 * ?w * ?h) ?px2 = []" using lpx2 by simp
  with copy_pixels_eq [OF assms(2,3) c1 c2 c3]
  have copy2: "copy_pixels ?data2 (xsize img1) (ysize img1) (?px2, ?off2) =
      Inr (pixels img1, ?off2 + 12 * ?w * ?h)"
    by (simp add: fl2 px)
  have xw: "(word_of_int (int ?w) :: 32 word) = xsize img1"
    and yw: "(word_of_int (int ?h) :: 32 word) = ysize img1"
    by simp_all
  have t1: "pf_token (header_tokens ?data2) = ''PF''"
    and t4: "endianness_token (header_tokens ?data2) = (if le then ''-1.0'' else ''1.0'')"
    by (simp_all add: header_tokens_text)
  have t2: "stoi (xsize_token (header_tokens ?data2)) = Inr (int ?w)"
    unfolding header_tokens_text using stoi_dec [OF assms(2)] by simp
  have t3: "stoi (ysize_token (header_tokens ?data2)) = Inr (int ?h)"
    unfolding header_tokens_text using stoi_dec [OF assms(3)] by simp
  have size2: "length ?data2 =
      unat (word_of_int (int ?h) * word_of_int (int ?w) * 3 * 4 :: 32 word) + ?off2"
    unfolding xw yw u12 using len2 by simp
  have copy2': "copy_pixels ?data2 (word_of_int (int ?w)) (word_of_int (int ?h))
       (resize (unat (word_of_int (int ?h) * word_of_int (int ?w) * 3 :: 32 word)) zero_float
          (pixels img'), ?off2)
       = Inr (pixels img1, ?off2 + 12 * ?w * ?h)"
    unfolding xw yw by (rule copy2)
  from ReadPFM_InrI [OF t1 t2 t3 t4 size2 copy2']
  have "ReadPFM le (Contents ?data2) img' =
      (Inr (), img'\<lparr>xsize := xsize img1, ysize := ysize img1, pixels := pixels img1\<rparr>)"
    unfolding xw yw .
  moreover have "img'\<lparr>xsize := xsize img1, ysize := ysize img1, pixels := pixels img1\<rparr> = img1"
    by simp
  ultimately show ?thesis by (simp only: wr)
qed

subsection \<open>The claims about \<^verbatim>\<open>ReadPFM\<close>\<close>

text \<open>
  C5. Let \<^verbatim>\<open>ReadPFM\<close> return true on a file whose payload is exactly
  \<open>height * width * 3\<close> floats of four bytes. Then the pixel vector has
  \<open>height * width * 3\<close> elements, and for every row \<open>y\<close>, column \<open>x\<close> and channel \<open>c\<close> the
  sample at \<open>(y * width + x) * 3 + c\<close> is the float at position
  \<open>((height - 1 - y) * width + x) * 3 + c\<close> of the payload, four bytes long: rows in the
  opposite order, columns and channels in the same order.
\<close>

theorem ReadPFM_row_order:
  assumes "ReadPFM le (Contents data) img = (Inr (), img1)"
    and "length data =
           header_offset (header_tokens data) + unat (ysize img1) * unat (xsize img1) * 3 * 4"
    and "y < unat (ysize img1)" and "x < unat (xsize img1)" and "c < 3"
  shows "length (pixels img1) = unat (ysize img1) * unat (xsize img1) * 3 \<and>
         pixels img1 ! ((y * unat (xsize img1) + x) * 3 + c) =
           payload_float data (((unat (ysize img1) - 1 - y) * unat (xsize img1) + x) * 3 + c) \<and>
         length (payload_float data
           (((unat (ysize img1) - 1 - y) * unat (xsize img1) + x) * 3 + c)) = 4"
proof -
  let ?w = "unat (xsize img1)" and ?h = "unat (ysize img1)"
  let ?off = "header_offset (header_tokens data)"
  let ?px = "resize (unat (ysize img1 * xsize img1 * 3)) zero_float (pixels img)"
  from ReadPFM_InrD [OF assms(1)] obtain off' where
    size: "length data = unat (ysize img1 * xsize img1 * 3 * 4) + ?off" and
    copy: "copy_pixels data (xsize img1) (ysize img1) (?px, ?off) = Inr (pixels img1, off')"
    by blast
  have "unat (ysize img1 * xsize img1 * 3 * 4) = ?h * ?w * 12"
    using size assms(2) by linarith
  then have "(?h * ?w * 12) mod 2 ^ 32 = ?h * ?w * 12" by (simp only: unat_times12)
  moreover have "(?h * ?w * 12) mod 2 ^ 32 < (2 ^ 32 :: nat)" by simp
  ultimately have small: "?h * ?w * 12 < 2 ^ 32" by (simp only:)
  have pos: "0 < ?h" "0 < ?w" using assms(3,4) by simp_all
  have small': "?h * ?w * 12 < 4294967296" using small by simp
  have "?w \<le> ?h * ?w" using pos by simp
  then have "?w < 2147483648" using small' by linarith
  then have w: "?w < 2 ^ 31" by simp
  have "?h \<le> ?h * ?w" using pos by simp
  then have "?h < 2147483648" using small' by linarith
  then have h: "?h < 2 ^ 31" by simp
  have small3: "?h * ?w * 3 < 4294967296" using small' by linarith
  then have "?h * ?w * 3 < 2 ^ 32" by simp
  then have "(?h * ?w * 3) mod 2 ^ 32 = ?h * ?w * 3" by (rule mod_less)
  then have u3: "unat (ysize img1 * xsize img1 * 3) = ?h * ?w * 3" by (simp only: unat_times3)
  have comm: "3 * ?w * ?h = ?h * ?w * 3" "12 * ?w * ?h = ?h * ?w * 3 * 4" by simp_all
  have lpx: "length ?px = 3 * ?w * ?h" by (simp only: length_resize u3 comm)
  have b1: "3 * ?w * ?h \<le> length ?px" by (simp only: lpx order_refl)
  have b2: "?off + 12 * ?w * ?h \<le> length data" by (simp only: comm assms(2) order_refl)
  have b3: "length ?px < 2 ^ 32" unfolding lpx comm using small3 by simp
  from copy_pixels_eq [OF w h b1 b2 b3] copy
  have px: "pixels img1 = rev_rows (3 * ?w) ?h (floats data ?off (3 * ?w * ?h)) @
              drop (3 * ?w * ?h) ?px"
    by simp
  have "drop (3 * ?w * ?h) ?px = []" using lpx by simp
  then have px': "pixels img1 = rev_rows (3 * ?w) ?h (floats data ?off (3 * ?w * ?h))"
    using px by simp
  have len: "length (pixels img1) = ?h * ?w * 3"
    unfolding px' by (subst length_rev_rows) (simp_all add: mult.commute)
  have j: "3 * x + c < 3 * ?w" using assms(4,5) by simp
  have "(?h - 1 - y) < ?h" using pos by simp
  then have "Suc (?h - 1 - y) \<le> ?h" by simp
  then have "3 * ?w * Suc (?h - 1 - y) \<le> 3 * ?w * ?h" by (rule mult_le_mono2)
  then have k: "(?h - 1 - y) * (3 * ?w) + (3 * x + c) < 3 * ?w * ?h"
    using j by (simp add: mult.commute)
  have "pixels img1 ! (y * (3 * ?w) + (3 * x + c)) =
          floats data ?off (3 * ?w * ?h) ! ((?h - 1 - y) * (3 * ?w) + (3 * x + c))"
    unfolding px' using assms(3) j by (intro nth_rev_rows) simp_all
  also have "\<dots> = payload_float data ((?h - 1 - y) * (3 * ?w) + (3 * x + c))"
    using k by (simp add: floats_def payload_float_def)
  finally have nth: "pixels img1 ! ((y * ?w + x) * 3 + c) =
      payload_float data (((?h - 1 - y) * ?w + x) * 3 + c)"
    by (simp add: algebra_simps)
  have "?off + 4 * ((?h - 1 - y) * (3 * ?w) + (3 * x + c)) + 4 \<le> length data"
    using k b2 by simp
  then have "length (payload_float data ((?h - 1 - y) * (3 * ?w) + (3 * x + c))) = 4"
    by (simp add: payload_float_def)
  then have l4: "length (payload_float data (((?h - 1 - y) * ?w + x) * 3 + c)) = 4"
    by (simp add: algebra_simps)
  show ?thesis using len nth l4 by simp
qed

theorem ReadPFM_row_order_witness:
  "ReadPFM True (Contents pfm_1x2) empty_image = (Inr (), image_1x2) \<and>
   length pfm_1x2 =
     header_offset (header_tokens pfm_1x2) + unat (ysize image_1x2) * unat (xsize image_1x2) * 3 * 4 \<and>
   (0 :: nat) < unat (ysize image_1x2) \<and> (0 :: nat) < unat (xsize image_1x2) \<and> (1 :: nat) < 3 \<and>
   length (pixels image_1x2) = unat (ysize image_1x2) * unat (xsize image_1x2) * 3 \<and>
   pixels image_1x2 ! ((0 * unat (xsize image_1x2) + 0) * 3 + 1) =
     payload_float pfm_1x2 (((unat (ysize image_1x2) - 1 - 0) * unat (xsize image_1x2) + 0) * 3 + 1) \<and>
   payload_float pfm_1x2 (((unat (ysize image_1x2) - 1 - 0) * unat (xsize image_1x2) + 0) * 3 + 1)
     = ''eeee''"
proof -
  have a: "ReadPFM True (Contents pfm_1x2) empty_image = (Inr (), image_1x2)" by code_simp
  have b: "length pfm_1x2 =
     header_offset (header_tokens pfm_1x2) + unat (ysize image_1x2) * unat (xsize image_1x2) * 3 * 4"
    by code_simp
  have c: "(0 :: nat) < unat (ysize image_1x2)" by code_simp
  have d: "(0 :: nat) < unat (xsize image_1x2)" by code_simp
  have e: "(1 :: nat) < 3" by simp
  have f: "payload_float pfm_1x2
      (((unat (ysize image_1x2) - 1 - 0) * unat (xsize image_1x2) + 0) * 3 + 1) = ''eeee''"
    by code_simp
  from ReadPFM_row_order [OF a b c d e] a b c d e f show ?thesis by blast
qed

text \<open>
  C6. Let the first line be \<^verbatim>\<open>PF\<close>, the two dimensions convert to \<open>xi\<close> and \<open>yi\<close>, the
  endianness token be one of the two literals, and the file be one byte longer or one byte
  shorter than the header plus \<open>yi * xi * 3 * 4\<close> bytes. Then \<^verbatim>\<open>ReadPFM\<close> returns false
  at the size test of line 117, whatever the byte order of the host, and the pixel vector
  is the one the caller passed: only \<^verbatim>\<open>*xsize\<close> and \<^verbatim>\<open>*ysize\<close> have been written.
\<close>

theorem ReadPFM_off_by_one:
  assumes "pf_token (header_tokens data) = ''PF''"
    and "stoi (xsize_token (header_tokens data)) = Inr xi"
    and "stoi (ysize_token (header_tokens data)) = Inr yi"
    and "endianness_token (header_tokens data) = ''1.0'' \<or>
         endianness_token (header_tokens data) = ''-1.0''"
    and "int (length data) = int (header_offset (header_tokens data)) + yi * xi * 3 * 4 + 1 \<or>
         int (length data) + 1 = int (header_offset (header_tokens data)) + yi * xi * 3 * 4"
  shows "ReadPFM le (Contents data) img =
           (Inl (Size_mismatch (length data)
                  (unat (word_of_int yi * word_of_int xi * 3 * 4 :: 32 word)
                     + header_offset (header_tokens data))),
            img\<lparr>xsize := word_of_int xi, ysize := word_of_int yi\<rparr>) \<and>
         pixels (img\<lparr>xsize := word_of_int xi, ysize := word_of_int yi\<rparr>) = pixels img \<and>
         returns_false (Size_mismatch (length data)
                  (unat (word_of_int yi * word_of_int xi * 3 * 4 :: 32 word)
                     + header_offset (header_tokens data)))"
proof -
  let ?m = "yi * xi * 12"
  let ?off = "header_offset (header_tokens data)"
  have ne: "length data \<noteq> unat (word_of_int yi * word_of_int xi * 3 * 4 :: 32 word) + ?off"
  proof
    assume "length data = unat (word_of_int yi * word_of_int xi * 3 * 4 :: 32 word) + ?off"
    then have "int (length data) = ?m mod 2 ^ 32 + int ?off"
      by (simp only: unat_dims12) simp
    then have "?m - ?m mod 4294967296 = - 1 \<or> ?m - ?m mod 4294967296 = 1"
      using assms(5) by auto
    moreover have "(4294967296 :: int) dvd ?m - ?m mod 4294967296" by (rule dvd_minus_mod)
    ultimately have "(4294967296 :: int) dvd - 1 \<or> (4294967296 :: int) dvd 1" by metis
    then show False by simp
  qed
  show ?thesis
    using assms(1-4) ne unfolding ReadPFM_def Let_def
    by auto
qed

theorem ReadPFM_off_by_one_witness:
  "pf_token (header_tokens pfm_short) = ''PF'' \<and>
   stoi (xsize_token (header_tokens pfm_short)) = Inr 2 \<and>
   stoi (ysize_token (header_tokens pfm_short)) = Inr 1 \<and>
   endianness_token (header_tokens pfm_short) = ''-1.0'' \<and>
   int (length pfm_short) + 1 = int (header_offset (header_tokens pfm_short)) + 1 * 2 * 3 * 4 \<and>
   ReadPFM True (Contents pfm_short) empty_image =
     (Inl (Size_mismatch (length pfm_short)
             (unat (word_of_int 1 * word_of_int 2 * 3 * 4 :: 32 word)
                + header_offset (header_tokens pfm_short))),
      empty_image\<lparr>xsize := word_of_int 2, ysize := word_of_int 1\<rparr>) \<and>
   pixels (empty_image\<lparr>xsize := word_of_int 2, ysize := word_of_int 1\<rparr>) = pixels empty_image"
proof -
  have a: "pf_token (header_tokens pfm_short) = ''PF''" by code_simp
  have b: "stoi (xsize_token (header_tokens pfm_short)) = Inr 2" by code_simp
  have c: "stoi (ysize_token (header_tokens pfm_short)) = Inr 1" by code_simp
  have d: "endianness_token (header_tokens pfm_short) = ''-1.0''" by code_simp
  have e: "int (length pfm_short) + 1 =
      int (header_offset (header_tokens pfm_short)) + 1 * 2 * 3 * 4"
    by code_simp
  from d have d': "endianness_token (header_tokens pfm_short) = ''1.0'' \<or>
         endianness_token (header_tokens pfm_short) = ''-1.0''" by simp
  from e have e': "int (length pfm_short) =
         int (header_offset (header_tokens pfm_short)) + 1 * 2 * 3 * 4 + 1 \<or>
      int (length pfm_short) + 1 =
         int (header_offset (header_tokens pfm_short)) + 1 * 2 * 3 * 4" by simp
  from ReadPFM_off_by_one [OF a b c d' e', of True empty_image] a b c d e
  show ?thesis by blast
qed

text \<open>
  C7, as the code has it. Take the file made of the line \<^verbatim>\<open>PF\<close>, a width and a height
  in decimal digits, both below \<open>2 ^ 31\<close> and one of them 0, the endianness token of the
  host's byte order, and no payload. Then \<^verbatim>\<open>ReadPFM\<close> returns true, the pixel vector is
  empty whatever it held before, and the width and the height it passes on are the
  numbers of the file.
\<close>

theorem ReadPFM_empty_image:
  assumes "decimal xt" and "decimal yt"
    and "digits_value xt < 2 ^ 31" and "digits_value yt < 2 ^ 31"
    and "digits_value xt = 0 \<or> digits_value yt = 0"
  shows "ReadPFM le (Contents (pfm_header xt yt (if le then ''-1.0'' else ''1.0''))) img =
           (Inr (), \<lparr>pixels = [], xsize = word_of_int (digits_value xt),
                     ysize = word_of_int (digits_value yt)\<rparr>) \<and>
         uint (word_of_int (digits_value xt) :: 32 word) = digits_value xt \<and>
         uint (word_of_int (digits_value yt) :: 32 word) = digits_value yt"
proof -
  let ?et = "if le then ''-1.0'' else ''1.0''"
  let ?data = "pfm_header xt yt ?et"
  have et: "CHR ''\<newline>'' \<notin> set ?et" by simp
  have h: "header_tokens ?data =
     \<lparr>pf_token = ''PF'', xsize_token = xt, ysize_token = yt, endianness_token = ?et\<rparr>"
    using header_tokens_pfm_header [OF decimal_no_delim(1) [OF assms(1)]
        decimal_no_delim(2) [OF assms(2)] et, of "[]"]
    by simp
  have t1: "pf_token (header_tokens ?data) = ''PF''"
    and t4: "endianness_token (header_tokens ?data) = ?et"
    by (simp_all only: h header.simps)
  have t2: "stoi (xsize_token (header_tokens ?data)) = Inr (digits_value xt)"
    using assms(3) by (simp add: h stoi_decimal [OF assms(1)])
  have t3: "stoi (ysize_token (header_tokens ?data)) = Inr (digits_value yt)"
    using assms(4) by (simp add: h stoi_decimal [OF assms(2)])
  have len: "length ?data = header_offset (header_tokens ?data)"
    unfolding h by (simp add: header_offset_def pfm_header_def)
  have nx: "0 \<le> digits_value xt" and ny: "0 \<le> digits_value yt"
    using assms(1,2) by (simp_all add: decimal_def digits_value_nonneg)
  from empty_image_accepted [OF t1 t2 t3 assms(5) t4 len, of img]
    uint_small [OF nx assms(3)] uint_small [OF ny assms(4)]
  show ?thesis by simp
qed

theorem ReadPFM_empty_image_witness:
  "decimal ''0'' \<and> decimal ''5'' \<and>
   digits_value ''0'' < 2 ^ 31 \<and> digits_value ''5'' < 2 ^ 31 \<and> digits_value ''0'' = 0 \<and>
   ReadPFM True (Contents (pfm_header ''0'' ''5'' ''-1.0'')) image_1x2 =
     (Inr (), \<lparr>pixels = [], xsize = 0, ysize = 5\<rparr>) \<and>
   uint (5 :: 32 word) = digits_value ''5''"
proof -
  have a: "decimal ''0''" and b: "decimal ''5''" by code_simp+
  have c: "digits_value ''0'' < 2 ^ 31" and d: "digits_value ''5'' < 2 ^ 31"
    by (simp_all add: digits_value_def)
  have e: "digits_value ''0'' = 0" and f: "digits_value ''5'' = 5"
    by (simp_all add: digits_value_def)
  from e have e': "digits_value ''0'' = 0 \<or> digits_value ''5'' = 0" by simp
  from ReadPFM_empty_image [OF a b c d e', of True image_1x2] a b c d e f
  show ?thesis by simp
qed

text \<open>
  C7 as the spec words it fails twice on a little-endian host, both times with a header
  that is valid token by token and no payload: the height 2147483648 next to the width 0
  makes \<^verbatim>\<open>std::stoi\<close> throw \<^verbatim>\<open>out_of_range\<close> at line 97, and the big-endian token makes
  \<^verbatim>\<open>ReadPFM\<close> return false at line 126.
\<close>

theorem ReadPFM_empty_image_counterexample:
  "ReadPFM True (Contents ''PF\<newline>0 2147483648\<newline>-1.0\<newline>'') empty_image =
     (Inl Stoi_out_of_range, empty_image) \<and>
   ReadPFM True (Contents ''PF\<newline>0 0\<newline>1.0\<newline>'') empty_image =
     (Inl Different_endianness, empty_image)"
proof -
  have a: "ReadPFM True (Contents ''PF\<newline>0 2147483648\<newline>-1.0\<newline>'') empty_image =
     (Inl Stoi_out_of_range, empty_image)"
    by code_simp
  have b: "ReadPFM True (Contents ''PF\<newline>0 0\<newline>1.0\<newline>'') empty_image =
     (Inl Different_endianness, empty_image)"
    by code_simp
  show ?thesis using a b by blast
qed

text \<open>
  C8. Let \<^verbatim>\<open>ReadPFM\<close> return true on a file whose width and height are written in
  decimal digits. Writing the image back in the same format for the same byte order and
  reading that file gives \<^verbatim>\<open>true\<close> again, with the same width and height and with pixel
  data identical to that of the first read, whatever the outputs held before.
\<close>

theorem ReadPFM_round_trip:
  assumes "ReadPFM le (Contents data) img = (Inr (), img1)"
    and "decimal (xsize_token (header_tokens data))"
    and "decimal (ysize_token (header_tokens data))"
  shows "ReadPFM le (Contents (WritePFM le img1)) img' = (Inr (), img1)"
proof -
  from ReadPFM_InrD [OF assms(1)] obtain xi yi where
    x: "stoi (xsize_token (header_tokens data)) = Inr xi" "xsize img1 = word_of_int xi" and
    y: "stoi (ysize_token (header_tokens data)) = Inr yi" "ysize img1 = word_of_int yi"
    by blast
  note bx = stoi_decimal_Inr(2,3) [OF assms(2) x(1)]
  note by' = stoi_decimal_Inr(2,3) [OF assms(3) y(1)]
  have "uint (xsize img1) = xi" unfolding x(2) using bx by (rule uint_small)
  then have "int (unat (xsize img1)) < int (2 ^ 31)" using bx(2) by simp
  then have w: "unat (xsize img1) < 2 ^ 31" by (simp only: of_nat_less_iff)
  have "uint (ysize img1) = yi" unfolding y(2) using by' by (rule uint_small)
  then have "int (unat (ysize img1)) < int (2 ^ 31)" using by'(2) by simp
  then have h: "unat (ysize img1) < 2 ^ 31" by (simp only: of_nat_less_iff)
  from assms(1) w h show ?thesis by (rule round_trip_below)
qed

theorem ReadPFM_round_trip_witness:
  "ReadPFM True (Contents pfm_1x2) empty_image = (Inr (), image_1x2) \<and>
   decimal (xsize_token (header_tokens pfm_1x2)) \<and>
   decimal (ysize_token (header_tokens pfm_1x2)) \<and>
   ReadPFM True (Contents (WritePFM True image_1x2)) image_1x2 = (Inr (), image_1x2)"
proof -
  have a: "ReadPFM True (Contents pfm_1x2) empty_image = (Inr (), image_1x2)" by code_simp
  have b: "decimal (xsize_token (header_tokens pfm_1x2))" by code_simp
  have c: "decimal (ysize_token (header_tokens pfm_1x2))" by code_simp
  from ReadPFM_round_trip [OF a b c, of image_1x2] a b c show ?thesis by blast
qed

text \<open>
  C9. The size test and the \<^verbatim>\<open>resize\<close> multiply in \<^verbatim>\<open>uint32_t\<close>. With the dimensions
  \<^verbatim>\<open>-1 -1\<close>, which \<^verbatim>\<open>std::stoi\<close> accepts and the assignment turns into 4294967295,
  a payload of 12 bytes passes the test although \<open>height * width * 3 * 4\<close> is far beyond
  \<open>2 ^ 32\<close>; \<^verbatim>\<open>ReadPFM\<close> returns true with \<open>(height * width * 3) mod 2 ^ 32 = 3\<close> samples
  (the loops do not run, \<^verbatim>\<open>(int)*xsize\<close> being negative). With the dimensions
  \<^verbatim>\<open>65536 65536\<close> a file without payload passes the test too, the vector gets
  \<open>(height * width * 3) mod 2 ^ 32 = 0\<close> elements, and the first \<^verbatim>\<open>memcpy\<close> is out of
  bounds.
\<close>

theorem ReadPFM_size_wraps:
  "ReadPFM True (Contents ''PF\<newline>-1 -1\<newline>-1.0\<newline>aaaabbbbcccc'') empty_image =
     (Inr (), \<lparr>pixels = [zero_float, zero_float, zero_float],
               xsize = 4294967295, ysize = 4294967295\<rparr>) \<and>
   unat (4294967295 :: 32 word) * unat (4294967295 :: 32 word) * 3 * 4 > 2 ^ 32 \<and>
   length ''aaaabbbbcccc'' \<noteq> unat (4294967295 :: 32 word) * unat (4294967295 :: 32 word) * 3 * 4 \<and>
   length [zero_float, zero_float, zero_float] =
     (unat (4294967295 :: 32 word) * unat (4294967295 :: 32 word) * 3) mod 2 ^ 32 \<and>
   ReadPFM True (Contents ''PF\<newline>65536 65536\<newline>-1.0\<newline>'') empty_image =
     (Inl Out_of_bounds, \<lparr>pixels = [], xsize = 65536, ysize = 65536\<rparr>)"
proof -
  have a: "ReadPFM True (Contents ''PF\<newline>-1 -1\<newline>-1.0\<newline>aaaabbbbcccc'') empty_image =
     (Inr (), \<lparr>pixels = [zero_float, zero_float, zero_float],
               xsize = 4294967295, ysize = 4294967295\<rparr>)"
    by code_simp
  have b: "unat (4294967295 :: 32 word) * unat (4294967295 :: 32 word) * 3 * 4 > 2 ^ 32"
    by simp
  have c: "length ''aaaabbbbcccc'' \<noteq>
      unat (4294967295 :: 32 word) * unat (4294967295 :: 32 word) * 3 * 4"
    by simp
  have d: "length [zero_float, zero_float, zero_float] =
     (unat (4294967295 :: 32 word) * unat (4294967295 :: 32 word) * 3) mod 2 ^ 32"
    by simp
  have s1: "0 < nat (sint (65536 :: 32 word))" by simp
  have s2: "0 < nat (sint (65536 - 1 :: 32 word) + 1)" by simp
  have e: "ReadPFM True (Contents ''PF\<newline>65536 65536\<newline>-1.0\<newline>'') empty_image =
     (Inl Out_of_bounds, \<lparr>pixels = [], xsize = 65536, ysize = 65536\<rparr>)"
    by (simp add: ReadPFM_def header_tokens_def getline_def stoi_def isspace_def isdigit_def
      digits_value_def header_offset_def empty_image_def resize_def
      copy_pixels_empty_vector [OF s1 s2])
  show ?thesis using a b c d e by blast
qed

text \<open>
  C10. After a valid first line, a width that is not a number, a width that is empty, or
  a height that is not a number makes \<^verbatim>\<open>std::stoi\<close> throw \<^verbatim>\<open>invalid_argument\<close>, which
  leaves \<^verbatim>\<open>ReadPFM\<close> neither by \<^verbatim>\<open>return true\<close> nor by one of its \<^verbatim>\<open>return false\<close>.
\<close>

theorem ReadPFM_stoi_throws:
  "ReadPFM le (Contents ''PF\<newline>abc 2\<newline>-1.0\<newline>'') img = (Inl Stoi_invalid_argument, img) \<and>
   ReadPFM le (Contents ''PF\<newline> 2\<newline>-1.0\<newline>'') img = (Inl Stoi_invalid_argument, img) \<and>
   ReadPFM le (Contents ''PF\<newline>2 x\<newline>-1.0\<newline>'') img =
     (Inl Stoi_invalid_argument, img\<lparr>xsize := 2\<rparr>) \<and>
   \<not> returns_false Stoi_invalid_argument"
  by (simp add: ReadPFM_def header_tokens_def getline_def stoi_def isspace_def isdigit_def
      digits_value_def)

end
